theory Spec2Isabelle
  imports Main "HOL-Library.Sublist"
begin

section \<open>Python strings\<close>

text \<open>
  A Python \<open>str\<close> is a sequence of Unicode code points and \<open>len\<close> counts code points,
  so a string is modelled as a list of code points. Literals of the source that are plain
  ASCII are written with \<open>ascii\<close>; the emoji and box characters of the templates are
  written as their code points.
\<close>

type_synonym pystr = "nat list"

definition ascii :: "string \<Rightarrow> pystr" where
  "ascii s = map of_char s"

text \<open>
  The characters \<open>str.split()\<close> treats as whitespace (\<open>Py_UNICODE_ISSPACE\<close>): the ASCII
  controls 0x09-0x0D and 0x1C-0x1F, the space, and the Unicode separators.
\<close>

definition isspace :: "nat \<Rightarrow> bool" where
  "isspace c \<longleftrightarrow>
     c \<in> {9, 10, 11, 12, 13, 28, 29, 30, 31, 32, 133, 160, 5760}
       \<union> {8192..8202} \<union> {8232, 8233, 8239, 8287, 12288}"

text \<open>
  \<open>text.split()\<close>: skip a run of whitespace, stop at the end of the string, otherwise
  collect the characters up to the next whitespace as one word and continue behind it.
\<close>

function py_split :: "pystr \<Rightarrow> pystr list" where
  "py_split s =
     (case dropWhile isspace s of
        [] \<Rightarrow> []
      | c # cs \<Rightarrow> takeWhile (\<lambda>x. \<not> isspace x) (c # cs)
                 # py_split (dropWhile (\<lambda>x. \<not> isspace x) (c # cs)))"
  by pat_completeness auto
termination
proof (relation "measure length")
  show "wf (measure length)" by simp
next
  fix s :: pystr and c cs
  assume d: "dropWhile isspace s = c # cs"
  have "\<not> isspace c"
    using d hd_dropWhile [of isspace s] by fastforce
  then have "length (dropWhile (\<lambda>x. \<not> isspace x) (c # cs)) \<le> length cs"
    by (simp add: length_dropWhile_le)
  moreover have "length (c # cs) \<le> length s"
    using d length_dropWhile_le [of isspace s] by simp
  ultimately show "(dropWhile (\<lambda>x. \<not> isspace x) (c # cs), s) \<in> measure length"
    by simp
qed

declare py_split.simps [simp del]

text \<open>\<open>sep.join(words)\<close>.\<close>

fun py_join :: "pystr \<Rightarrow> pystr list \<Rightarrow> pystr" where
  "py_join sep [] = []"
| "py_join sep [w] = w"
| "py_join sep (w # v # ws) = w @ sep @ py_join sep (v # ws)"

text \<open>
  The slice \<open>s[:n]\<close>: the first \<open>n\<close> elements, and for a negative \<open>n\<close> all but the last
  \<open>-n\<close> elements (none when the sequence is shorter).
\<close>

definition slice_to :: "int \<Rightarrow> 'a list \<Rightarrow> 'a list" where
  "slice_to n s = (if 0 \<le> n then take (nat n) s else take (length s - nat (- n)) s)"

text \<open>
  \<open>s.rsplit(sep, 1)\<close> for a one-character separator: split once, at the last
  occurrence of the separator; a string without the separator comes back whole.
\<close>

definition rsplit1 :: "nat \<Rightarrow> pystr \<Rightarrow> pystr list" where
  "rsplit1 sep s =
     (if sep \<in> set s
      then [rev (tl (dropWhile (\<lambda>c. c \<noteq> sep) (rev s))),
            rev (takeWhile (\<lambda>c. c \<noteq> sep) (rev s))]
      else [s])"

text \<open>\<open>str(n)\<close> for a count: its decimal digits.\<close>

function str_nat :: "nat \<Rightarrow> pystr" where
  "str_nat n = (if n < 10 then [48 + n] else str_nat (n div 10) @ [48 + n mod 10])"
  by pat_completeness auto
termination
  by (relation "measure id") auto

declare str_nat.simps [simp del]

section \<open>The summarizer\<close>

text \<open>The expression \<open>' '.join(text.split())\<close> of \<open>clean_text\<close>.\<close>

definition collapse_ws :: "pystr \<Rightarrow> pystr" where
  "collapse_ws t = py_join (ascii '' '') (py_split t)"

text \<open>
  \<open>NewsSummarizer.clean_text(text, max_len)\<close>. The argument may be \<open>None\<close> (a JSON
  null description); \<open>not text\<close> holds for \<open>None\<close> and for the empty string.
\<close>

definition clean_text :: "pystr option \<Rightarrow> int \<Rightarrow> pystr" where
  "clean_text text max_len =
     (case text of
        None \<Rightarrow> ascii ''No details available''
      | Some t \<Rightarrow>
          if t = [] then ascii ''No details available''
          else let text' = slice_to max_len (collapse_ws t)
               in if int (length text') < max_len then text'
                  else hd (rsplit1 32 text') @ ascii ''...'')"

section \<open>The data of the news API\<close>

text \<open>
  \<open>d.get(key)\<close> on a JSON object meets three cases: the key is absent, its value is
  \<open>null\<close> (Python's \<open>None\<close>), or it has a value. The fields of an article are
  strings or null, as the API documents them; the keys of an article that the program
  never reads are left out.
\<close>

datatype 'a field = Missing | Null | Val 'a

text \<open>\<open>d.get(key)\<close> and \<open>d.get(key, default)\<close>; the result \<open>None\<close> is Python's \<open>None\<close>.\<close>

definition get :: "'a field \<Rightarrow> 'a option" where
  "get f = (case f of Missing \<Rightarrow> None | Null \<Rightarrow> None | Val v \<Rightarrow> Some v)"

definition get_default :: "'a field \<Rightarrow> 'a \<Rightarrow> 'a option" where
  "get_default f d = (case f of Missing \<Rightarrow> Some d | Null \<Rightarrow> None | Val v \<Rightarrow> Some v)"

text \<open>The truth value of an optional string: \<open>None\<close> and \<open>''\<close> are false.\<close>

definition truthy :: "pystr option \<Rightarrow> bool" where
  "truthy v = (case v of None \<Rightarrow> False | Some s \<Rightarrow> s \<noteq> [])"

datatype source_obj = Source (src_name: "pystr field")

record raw_article =
  a_title :: "pystr field"
  a_description :: "pystr field"
  a_source :: "source_obj field"
  a_url :: "pystr field"

datatype py_exception = RequestException | JSONDecodeError | AttributeError | TypeError

text \<open>
  What \<open>session.get(...)\<close> followed by \<open>response.json()\<close> gives for one query: either of
  the two raises, or the body parses to a JSON value, which is an object with a status and
  an article array or something else.
\<close>

datatype json_body =
  NotAnObject
| Object (body_status: "pystr field") (body_articles: "raw_article list field")

datatype http_outcome = Raises py_exception | Returns json_body

text \<open>What a run does to the outside, in order.\<close>

datatype level = INFO | WARNING | ERROR

datatype event = HttpGet pystr | Sleep | Log level | SmtpSend pystr pystr pystr

section \<open>The news fetcher\<close>

text \<open>
  The filter of \<open>search_news\<close>: \<open>a.get('title') and a['title'] != '[Removed]'\<close>.
\<close>

definition title_ok :: "raw_article \<Rightarrow> bool" where
  "title_ok a \<longleftrightarrow> truthy (get (a_title a)) \<and> a_title a \<noteq> Val (ascii ''[Removed]'')"

text \<open>
  The body of the \<open>try\<close> block of \<open>search_news\<close>. Calling \<open>get\<close> on a body that is not an
  object raises AttributeError; iterating over a null article array raises TypeError.
\<close>

definition search_news_try :: "http_outcome \<Rightarrow> py_exception + raw_article list" where
  "search_news_try outcome =
     (case outcome of
        Raises e \<Rightarrow> Inl e
      | Returns NotAnObject \<Rightarrow> Inl AttributeError
      | Returns (Object st arts) \<Rightarrow>
          if get st = Some (ascii ''ok'')
          then (case get_default arts [] of
                  None \<Rightarrow> Inl TypeError
                | Some as \<Rightarrow> Inr (slice_to 6 (filter title_ok as)))
          else Inr [])"

text \<open>
  \<open>NewsFetcher.search_news(query)\<close>: the handler \<open>except Exception\<close> logs and returns the
  empty list. The first argument is the API: the outcome of the request for each query.
\<close>

definition search_news ::
    "(pystr \<Rightarrow> http_outcome) \<Rightarrow> pystr \<Rightarrow> (py_exception + raw_article list) \<times> event list" where
  "search_news http query =
     (case search_news_try (http query) of
        Inl e \<Rightarrow> (Inr [], [HttpGet query, Log ERROR])
      | Inr result \<Rightarrow> (Inr result, [HttpGet query]))"

section \<open>Summaries\<close>

text \<open>
  The dictionary \<open>create_summary\<close> builds. The source and the url are \<open>None\<close> when the
  article carries a null there.
\<close>

record summary =
  s_title :: pystr
  s_summary :: pystr
  s_source :: "pystr option"
  s_url :: "pystr option"

text \<open>
  \<open>NewsSummarizer.create_summary(article)\<close>. Slicing a null title raises TypeError and
  calling \<open>get\<close> on a null source raises AttributeError, in this order.
\<close>

definition create_summary :: "raw_article \<Rightarrow> py_exception + summary" where
  "create_summary article =
     (case get_default (a_title article) (ascii ''No Title'') of
        None \<Rightarrow> Inl TypeError
      | Some t \<Rightarrow>
          (case get_default (a_source article) (Source Missing) of
             None \<Rightarrow> Inl AttributeError
           | Some src \<Rightarrow>
               Inr \<lparr> s_title = slice_to 100 t,
                     s_summary = clean_text (get_default (a_description article) []) 150,
                     s_source = get_default (src_name src) (ascii ''Unknown''),
                     s_url = get_default (a_url article) [] \<rparr>))"

text \<open>A list comprehension whose element expression may raise.\<close>

fun map_raise :: "('a \<Rightarrow> 'e + 'b) \<Rightarrow> 'a list \<Rightarrow> 'e + 'b list" where
  "map_raise f [] = Inr []"
| "map_raise f (x # xs) =
     (case f x of
        Inl e \<Rightarrow> Inl e
      | Inr y \<Rightarrow> (case map_raise f xs of Inl e \<Rightarrow> Inl e | Inr ys \<Rightarrow> Inr (y # ys)))"

section \<open>The digest builder\<close>

text \<open>
  A dictionary keeps its keys in insertion order, so the digest is a list of pairs.
  \<open>d[key] = value\<close> replaces the value of a key in place and appends a new key;
  \<open>d.get(key, [])\<close> looks a key up.
\<close>

type_synonym digest = "(pystr \<times> summary list) list"

fun dict_set :: "('k \<times> 'v) list \<Rightarrow> 'k \<Rightarrow> 'v \<Rightarrow> ('k \<times> 'v) list" where
  "dict_set [] key v = [(key, v)]"
| "dict_set ((k, w) # d) key v = (if k = key then (k, v) # d else (k, w) # dict_set d key v)"

definition dict_get :: "('k \<times> 'v list) list \<Rightarrow> 'k \<Rightarrow> 'v list" where
  "dict_get d key = (case map_of d key of None \<Rightarrow> [] | Some v \<Rightarrow> v)"

definition TOPICS :: "(pystr \<times> pystr list) list" where
  "TOPICS =
    [(ascii ''national'',
      [ascii ''India government scheme'', ascii ''Parliament law India'',
       ascii ''Supreme Court India judgment'', ascii ''NEP education India'']),
     (ascii ''international'',
      [ascii ''global news India'', ascii ''India foreign relations'', ascii ''UN WHO India'']),
     (ascii ''economy'',
      [ascii ''India economy'', ascii ''RBI inflation India'', ascii ''stock market India'',
       ascii ''company news India'', ascii ''budget India'']),
     (ascii ''technology'',
      [ascii ''AI technology India'', ascii ''ISRO mission'', ascii ''cybersecurity India'',
       ascii ''tech news India'']),
     (ascii ''science'',
      [ascii ''scientific discovery'', ascii ''space mission'', ascii ''research breakthrough'']),
     (ascii ''health'',
      [ascii ''health news India'', ascii ''medical breakthrough'', ascii ''disease outbreak'']),
     (ascii ''education'',
      [ascii ''JEE NEET 2024'', ascii ''UPSC exam'', ascii ''board exam result India'',
       ascii ''scholarship India'']),
     (ascii ''environment'',
      [ascii ''climate change India'', ascii ''cyclone flood India'',
       ascii ''environment policy India''])]"

text \<open>
  The loop over the queries of one category: every result is appended to
  \<open>all_articles\<close>, and the loop sleeps after each call.
\<close>

fun fetch_queries ::
    "(pystr \<Rightarrow> http_outcome) \<Rightarrow> pystr list \<Rightarrow> raw_article list
      \<Rightarrow> (py_exception + raw_article list) \<times> event list" where
  "fetch_queries http [] all_articles = (Inr all_articles, [])"
| "fetch_queries http (query # queries) all_articles =
     (case search_news http query of
        (Inl e, tr) \<Rightarrow> (Inl e, tr)
      | (Inr articles, tr) \<Rightarrow>
          (case fetch_queries http queries (all_articles @ articles) of
             (r, tr') \<Rightarrow> (r, tr @ [Sleep] @ tr')))"

text \<open>
  The deduplication loop: \<open>seen_urls\<close> and \<open>unique_articles\<close> are the loop's state, and
  an article is appended when its url is truthy and not yet seen.
\<close>

fun unique_loop :: "raw_article list \<Rightarrow> pystr set \<Rightarrow> raw_article list \<Rightarrow> raw_article list" where
  "unique_loop [] seen_urls unique_articles = unique_articles"
| "unique_loop (art # rest) seen_urls unique_articles =
     (case get_default (a_url art) [] of
        None \<Rightarrow> unique_loop rest seen_urls unique_articles
      | Some url \<Rightarrow>
          if url \<noteq> [] \<and> url \<notin> seen_urls
          then unique_loop rest (insert url seen_urls) (unique_articles @ [art])
          else unique_loop rest seen_urls unique_articles)"

definition dedup_by_url :: "raw_article list \<Rightarrow> raw_article list" where
  "dedup_by_url all_articles = unique_loop all_articles {} []"

text \<open>
  The loop of \<open>fetch_all_news\<close> over the categories, with \<open>news_data\<close> as its state. An
  exception of \<open>create_summary\<close> ends the whole call.
\<close>

fun fetch_categories ::
    "(pystr \<Rightarrow> http_outcome) \<Rightarrow> (pystr \<times> pystr list) list \<Rightarrow> digest
      \<Rightarrow> (py_exception + digest) \<times> event list" where
  "fetch_categories http [] news_data = (Inr news_data, [])"
| "fetch_categories http ((cat_key, queries) # rest) news_data =
     (case fetch_queries http queries [] of
        (Inl e, tr) \<Rightarrow> (Inl e, tr)
      | (Inr all_articles, tr) \<Rightarrow>
          (case map_raise create_summary (slice_to 4 (dedup_by_url all_articles)) of
             Inl e \<Rightarrow> (Inl e, tr)
           | Inr summaries \<Rightarrow>
               (case fetch_categories http rest (dict_set news_data cat_key summaries) of
                  (r, tr') \<Rightarrow> (r, tr @ tr'))))"

definition fetch_all_news ::
    "(pystr \<Rightarrow> http_outcome) \<Rightarrow> (py_exception + digest) \<times> event list" where
  "fetch_all_news http = fetch_categories http TOPICS []"

section \<open>The email renderer\<close>

text \<open>The table \<open>cat_info\<close>: key, icon, display name and an unused description.\<close>

definition cat_info :: "(pystr \<times> pystr \<times> pystr \<times> pystr) list" where
  "cat_info =
    [(ascii ''national'', [128240], ascii ''NATIONAL (INDIA)'', ascii ''Govt schemes, laws, policies''),
     (ascii ''international'', [127757], ascii ''INTERNATIONAL'', ascii ''Global news, India relations''),
     (ascii ''economy'', [128176], ascii ''ECONOMY & BUSINESS'', ascii ''Money, markets, companies''),
     (ascii ''science'', [128200], ascii ''SCIENCE & TECH'', ascii ''AI, space, inventions''),
     (ascii ''education'', [127891], ascii ''EDUCATION & EXAMS'', ascii ''Exams, results, admissions''),
     (ascii ''environment'', [127793], ascii ''ENVIRONMENT'', ascii ''Climate, disasters''),
     (ascii ''technology'', [128202], ascii ''TECHNOLOGY'', ascii ''Tech news, AI''),
     (ascii ''health'', [127973], ascii ''HEALTH'', ascii ''Medical, wellness'')]"

text \<open>An optional string inside an f-string: \<open>None\<close> prints as \<open>None\<close>.\<close>

definition fmt :: "pystr option \<Rightarrow> pystr" where
  "fmt v = (case v of None \<Rightarrow> ascii ''None'' | Some s \<Rightarrow> s)"

definition html_head :: "pystr \<Rightarrow> pystr" where
  "html_head date_str =
     ascii ''<!DOCTYPE html>\<newline>''
     @ ascii ''<html><head><meta charset='UTF-8'><meta name='viewport' content='width=device-width, initial-scale=1.0'>\<newline>''
     @ ascii ''<title>Daily News</title>\<newline>''
     @ ascii ''<style>\<newline>''
     @ ascii ''body{font-family:-apple-system,BlinkMacSystemFont,'Segoe UI',Roboto,sans-serif;background:#f5f7fa;padding:15px}\<newline>''
     @ ascii ''.container{max-width:680px;margin:0 auto}\<newline>''
     @ ascii ''.header{background:linear-gradient(135deg,#1e3c72,#2a5298);color:white;padding:30px;border-radius:16px;text-align:center;margin-bottom:20px}\<newline>''
     @ ascii ''.category{background:white;border-radius:12px;padding:20px;margin-bottom:18px;box-shadow:0 2px 8px rgba(0,0,0,0.06)}\<newline>''
     @ ascii ''.cat-header{display:flex;align-items:center;margin-bottom:15px;padding-bottom:12px;border-bottom:2px solid #f0f2f5}\<newline>''
     @ ascii ''.cat-icon{font-size:26px;margin-right:12px}\<newline>''
     @ ascii ''.cat-title{font-size:18px;font-weight:700;color:#1e3c72}\<newline>''
     @ ascii ''.news-item{padding:14px 0;border-bottom:1px solid #f0f0f0}\<newline>''
     @ ascii ''.news-title{font-size:15px;font-weight:600;margin-bottom:6px}\<newline>''
     @ ascii ''.news-title a{color:#2a5298;text-decoration:none}\<newline>''
     @ ascii ''.news-source{font-size:12px;color:#888;margin-bottom:8px}\<newline>''
     @ ascii ''.news-summary{font-size:14px;color:#555;background:#f8f9fa;padding:12px;border-radius:8px;border-left:3px solid #2a5298}\<newline>''
     @ ascii ''.read-btn{display:inline-block;margin-top:8px;font-size:13px;color:#2a5298;text-decoration:none;font-weight:500}\<newline>''
     @ ascii ''.stats{background:#e8f4fd;padding:12px;border-radius:8px;text-align:center;margin-bottom:20px;font-size:14px;color:#1e3c72}\<newline>''
     @ ascii ''</style></head><body><div class='container'>\<newline>''
     @ ascii ''<div class='header'><h1>'' @ [128240] @ ascii '' Your Daily News Briefing</h1><p>''
     @ date_str @ ascii '' '' @ [8226] @ ascii '' Easy to understand</p></div>''"

definition html_cat_header :: "pystr \<Rightarrow> pystr \<Rightarrow> pystr" where
  "html_cat_header emoji name =
     ascii ''<div class=\"category\"><div class=\"cat-header\"><span class=\"cat-icon\">'' @ emoji
     @ ascii ''</span><span class=\"cat-title\">'' @ name @ ascii ''</span></div>''"

definition html_item :: "summary \<Rightarrow> pystr" where
  "html_item news =
     ascii ''<div class=\"news-item\"><div class=\"news-title\"><a href=\"'' @ fmt (s_url news)
     @ ascii ''\" target=\"_blank\">'' @ s_title news
     @ ascii ''</a></div><div class=\"news-source\">'' @ [128240] @ ascii '' '' @ fmt (s_source news)
     @ ascii ''</div><div class=\"news-summary\">'' @ s_summary news
     @ ascii ''</div><a href=\"'' @ fmt (s_url news)
     @ ascii ''\" class=\"read-btn\" target=\"_blank\">'' @ [8594] @ ascii '' Read full article</a></div>''"

text \<open>
  The first loop of \<open>create_email\<close>, over the entries of \<open>cat_info\<close>, with \<open>total\<close> and
  \<open>html\<close> as its state; a category without articles is skipped by \<open>continue\<close>.
\<close>

fun html_loop ::
    "(pystr \<times> pystr \<times> pystr \<times> pystr) list \<Rightarrow> digest \<Rightarrow> nat \<times> pystr \<Rightarrow> nat \<times> pystr" where
  "html_loop [] news_data (total', html) = (total', html)"
| "html_loop ((cat_key, emoji, name, d) # rest) news_data (total', html) =
     (let articles = dict_get news_data cat_key
      in if articles = [] then html_loop rest news_data (total', html)
         else html_loop rest news_data
                (total' + length articles,
                 foldl (\<lambda>h news. h @ html_item news) (html @ html_cat_header emoji name) articles
                 @ ascii ''</div>''))"

definition html_stats :: "nat \<Rightarrow> nat \<Rightarrow> pystr" where
  "html_stats total' n =
     ascii ''<div class='stats'>'' @ [128202] @ ascii '' '' @ str_nat total'
     @ ascii '' stories from '' @ str_nat n @ ascii '' categories</div></div></body></html>''"

definition text_head :: "pystr \<Rightarrow> pystr" where
  "text_head date_str =
     [128240] @ ascii '' DAILY NEWS - '' @ date_str @ ascii ''\<newline>''
     @ replicate 50 61 @ ascii ''\<newline>\<newline>''"

definition text_cat_header :: "pystr \<Rightarrow> pystr \<Rightarrow> pystr" where
  "text_cat_header emoji name =
     emoji @ ascii '' '' @ name @ ascii ''\<newline>'' @ replicate 40 9472 @ ascii ''\<newline>''"

text \<open>One numbered entry of the text body; slicing a \<open>None\<close> url raises TypeError.\<close>

definition text_item :: "nat \<Rightarrow> summary \<Rightarrow> py_exception + pystr" where
  "text_item i news =
     (case s_url news of
        None \<Rightarrow> Inl TypeError
      | Some url \<Rightarrow>
          Inr (str_nat i @ ascii ''. '' @ s_title news
               @ ascii ''\<newline>   '' @ [128221] @ ascii '' '' @ s_summary news
               @ ascii ''\<newline>   '' @ [128279] @ ascii '' '' @ slice_to 40 url
               @ ascii ''...\<newline>\<newline>''))"

fun text_items :: "nat \<Rightarrow> summary list \<Rightarrow> pystr \<Rightarrow> py_exception + pystr" where
  "text_items i [] text = Inr text"
| "text_items i (news # rest) text =
     (case text_item i news of
        Inl e \<Rightarrow> Inl e
      | Inr t \<Rightarrow> text_items (Suc i) rest (text @ t))"

text \<open>The second loop of \<open>create_email\<close>, with \<open>text\<close> as its state.\<close>

fun text_loop ::
    "(pystr \<times> pystr \<times> pystr \<times> pystr) list \<Rightarrow> digest \<Rightarrow> pystr \<Rightarrow> py_exception + pystr" where
  "text_loop [] news_data text = Inr text"
| "text_loop ((cat_key, emoji, name, d) # rest) news_data text =
     (let articles = dict_get news_data cat_key
      in if articles \<noteq> []
         then (case text_items 1 articles (text @ text_cat_header emoji name) of
                 Inl e \<Rightarrow> Inl e
               | Inr text' \<Rightarrow> text_loop rest news_data text')
         else text_loop rest news_data text)"

definition text_foot :: "nat \<Rightarrow> pystr" where
  "text_foot total' =
     replicate 50 61 @ ascii ''\<newline>'' @ [128260] @ ascii '' Auto-generated | ''
     @ str_nat total' @ ascii '' stories''"

text \<open>\<open>EmailSender.create_email(news_data, date_str)\<close>, returning \<open>(text, html)\<close>.\<close>

definition create_email :: "digest \<Rightarrow> pystr \<Rightarrow> py_exception + pystr \<times> pystr" where
  "create_email news_data date_str =
     (case html_loop cat_info news_data (0, html_head date_str) of
        (total', html) \<Rightarrow>
          (let html' = html @ html_stats total' (length (filter (\<lambda>(k, v). v \<noteq> []) news_data))
           in case text_loop cat_info news_data (text_head date_str) of
                Inl e \<Rightarrow> Inl e
              | Inr text \<Rightarrow> Inr (text @ text_foot total', html')))"

section \<open>Sending and the run\<close>

text \<open>
  The outside of a run: the news API, and whether the SMTP session for a message goes
  through. \<open>send\<close> catches every exception of the session and returns \<open>False\<close>; the event
  \<open>SmtpSend\<close> records that \<open>send\<close> was called with the message.
\<close>

record world =
  api :: "pystr \<Rightarrow> http_outcome"
  smtp_ok :: "pystr \<Rightarrow> pystr \<Rightarrow> pystr \<Rightarrow> bool"

definition send :: "world \<Rightarrow> pystr \<Rightarrow> pystr \<Rightarrow> pystr \<Rightarrow> bool \<times> event list" where
  "send w subject text html =
     (if smtp_ok w subject text html
      then (True, [SmtpSend subject text html, Log INFO])
      else (False, [SmtpSend subject text html, Log ERROR]))"

text \<open>\<open>NewsAutomator.run()\<close>; \<open>date_str\<close> is the formatted reading of the clock.\<close>

definition run :: "world \<Rightarrow> pystr \<Rightarrow> (py_exception + bool) \<times> event list" where
  "run w date_str =
     (case fetch_all_news (api w) of
        (Inl e, tr) \<Rightarrow> (Inl e, [Log INFO] @ tr)
      | (Inr news_data, tr) \<Rightarrow>
          (let total' = sum_list (map (\<lambda>(k, a). length a) news_data)
           in if total' = 0 then (Inr False, [Log INFO] @ tr @ [Log WARNING])
              else (case create_email news_data date_str of
                      Inl e \<Rightarrow> (Inl e, [Log INFO] @ tr)
                    | Inr (text, html) \<Rightarrow>
                        (case send w ([128240] @ ascii '' Daily News - '' @ date_str @ ascii '' (''
                                       @ str_nat total' @ ascii '' updates)'') text html of
                           (success, tr') \<Rightarrow> (Inr success, [Log INFO] @ tr @ tr' @ [Log INFO])))))"

section \<open>The sections of the two renderings\<close>

text \<open>
  What one round of each loop of \<open>create_email\<close> appends for a category with articles:
  the header, the entries and, in the HTML, the closing tag.
\<close>

definition html_section :: "pystr \<Rightarrow> pystr \<Rightarrow> summary list \<Rightarrow> pystr" where
  "html_section emoji name articles =
     html_cat_header emoji name @ concat (map html_item articles) @ ascii ''</div>''"

definition text_section :: "pystr \<Rightarrow> pystr \<Rightarrow> summary list \<Rightarrow> py_exception + pystr" where
  "text_section emoji name articles = text_items 1 articles (text_cat_header emoji name)"

section \<open>Example data\<close>

text \<open>
  An API that answers two of the technology queries with articles, one query with an error
  status and fails on every other query; the articles it leads to and the digest built
  from them; and a world whose API is down.
\<close>

definition ex_article :: "string \<Rightarrow> pystr field \<Rightarrow> raw_article" where
  "ex_article t u =
     \<lparr> a_title = Val (ascii t), a_description = Val (ascii ''d''),
       a_source = Val (Source (Val (ascii ''src''))), a_url = u \<rparr>"

definition ex_summary :: "string \<Rightarrow> string \<Rightarrow> summary" where
  "ex_summary t u =
     \<lparr> s_title = ascii t, s_summary = ascii ''d'', s_source = Some (ascii ''src''),
       s_url = Some (ascii u) \<rparr>"

definition ex_api :: "pystr \<Rightarrow> http_outcome" where
  "ex_api q =
     (if q = ascii ''ISRO mission''
      then Returns (Object (Val (ascii ''ok''))
             (Val [ex_article ''A'' Missing, ex_article ''B'' (Val (ascii ''u1'')),
                   ex_article ''[Removed]'' (Val (ascii ''u9'')), ex_article ''C'' (Val []),
                   ex_article ''D'' (Val (ascii ''u2'')), ex_article ''E'' (Val (ascii ''u1'')),
                   ex_article ''F'' (Val (ascii ''u3'')), ex_article ''G'' Null,
                   ex_article ''H'' (Val (ascii ''u4''))]))
      else if q = ascii ''tech news India''
      then Returns (Object (Val (ascii ''ok''))
             (Val [ex_article ''I'' (Val (ascii ''u2'')), ex_article ''J'' (Val (ascii ''u5'')),
                   ex_article ''K'' (Val (ascii ''u6''))]))
      else if q = ascii ''UPSC exam''
      then Returns (Object (Val (ascii ''error'')) Missing)
      else Raises RequestException)"

definition ex_fetched :: "raw_article list" where
  "ex_fetched =
     [ex_article ''A'' Missing, ex_article ''B'' (Val (ascii ''u1'')), ex_article ''C'' (Val []),
      ex_article ''D'' (Val (ascii ''u2'')), ex_article ''E'' (Val (ascii ''u1'')),
      ex_article ''F'' (Val (ascii ''u3'')), ex_article ''I'' (Val (ascii ''u2'')),
      ex_article ''J'' (Val (ascii ''u5'')), ex_article ''K'' (Val (ascii ''u6''))]"

definition ex_digest :: digest where
  "ex_digest =
     [(ascii ''national'', []), (ascii ''international'', []), (ascii ''economy'', []),
      (ascii ''technology'',
       [ex_summary ''B'' ''u1'', ex_summary ''D'' ''u2'', ex_summary ''F'' ''u3'',
        ex_summary ''J'' ''u5'']),
      (ascii ''science'', []), (ascii ''health'', []), (ascii ''education'', []),
      (ascii ''environment'', [])]"

definition empty_digest :: digest where
  "empty_digest =
     [(ascii ''national'', []), (ascii ''international'', []), (ascii ''economy'', []),
      (ascii ''technology'', []), (ascii ''science'', []), (ascii ''health'', []),
      (ascii ''education'', []), (ascii ''environment'', [])]"

definition down_world :: world where
  "down_world = \<lparr> api = (\<lambda>q. Raises RequestException), smtp_ok = (\<lambda>subject text html. True) \<rparr>"

section \<open>Properties of the string operations\<close>

lemma isspace_space: "isspace 32"
  by (simp add: isspace_def)

lemma ascii_space: "ascii '' '' = [32]"
  by (simp add: ascii_def)

lemma ascii_dots: "length (ascii ''...'') = 3"
  by (simp add: ascii_def)

lemma py_split_words:
  "w \<in> set (py_split s) \<Longrightarrow> w \<noteq> [] \<and> (\<forall>c \<in> set w. \<not> isspace c)"
proof (induction s rule: py_split.induct)
  case (1 s)
  show ?case
  proof (cases "dropWhile isspace s")
    case Nil
    with "1.prems" show ?thesis by (simp add: py_split.simps [of s])
  next
    case (Cons c cs)
    have nc: "\<not> isspace c"
      using Cons hd_dropWhile [of isspace s] by fastforce
    from "1.prems" Cons
    have "w = takeWhile (\<lambda>x. \<not> isspace x) (c # cs)
          \<or> w \<in> set (py_split (dropWhile (\<lambda>x. \<not> isspace x) (c # cs)))"
      by (simp add: py_split.simps [of s])
    then show ?thesis
    proof
      assume w: "w = takeWhile (\<lambda>x. \<not> isspace x) (c # cs)"
      have "w \<noteq> []" using w nc by simp
      moreover have "\<forall>x \<in> set w. \<not> isspace x"
        using w set_takeWhileD [of _ "\<lambda>x. \<not> isspace x" "c # cs"] by blast
      ultimately show ?thesis by blast
    next
      assume "w \<in> set (py_split (dropWhile (\<lambda>x. \<not> isspace x) (c # cs)))"
      then show ?thesis using "1.IH" [OF Cons] by blast
    qed
  qed
qed

lemma join_cut_at_sep:
  assumes "\<forall>w \<in> set ws. sep \<notin> set w"
    and "py_join [sep] ws = p @ sep # q"
  shows "\<exists>k. 0 < k \<and> k < length ws \<and> p = py_join [sep] (take k ws)"
  using assms
proof (induction ws arbitrary: p rule: induct_list012)
  case 1
  then show ?case by simp
next
  case (2 w)
  then show ?case by auto
next
  case (3 w v ws)
  from "3.prems" have eq: "w @ sep # py_join [sep] (v # ws) = p @ sep # q"
    and nw: "sep \<notin> set w" by simp_all
  from eq obtain us where
    "(w = p @ us \<and> us @ sep # py_join [sep] (v # ws) = sep # q)
     \<or> (w @ us = p \<and> sep # py_join [sep] (v # ws) = us @ sep # q)"
    by (auto simp: append_eq_append_conv2)
  then show ?case
  proof
    assume a: "w = p @ us \<and> us @ sep # py_join [sep] (v # ws) = sep # q"
    have "us = []"
    proof (cases us)
      case Nil then show ?thesis .
    next
      case (Cons u us')
      with a have "u = sep" by simp
      with Cons a nw show ?thesis by simp
    qed
    with a have "p = py_join [sep] (take 1 (w # v # ws))" by simp
    then show ?thesis by (intro exI [of _ 1]) simp
  next
    assume b: "w @ us = p \<and> sep # py_join [sep] (v # ws) = us @ sep # q"
    show ?thesis
    proof (cases us)
      case Nil
      with b have "p = py_join [sep] (take 1 (w # v # ws))" by simp
      then show ?thesis by (intro exI [of _ 1]) simp
    next
      case (Cons u us')
      with b have u: "u = sep" and rest: "py_join [sep] (v # ws) = us' @ sep # q"
        by auto
      from "3.prems" have "\<forall>x \<in> set (v # ws). sep \<notin> set x" by simp
      from "3.IH"(2) [OF this rest] obtain k where
        k: "0 < k" "k < length (v # ws)" "us' = py_join [sep] (take k (v # ws))"
        by blast
      from k(1) obtain k' where k': "k = Suc k'" by (cases k) auto
      have "p = w @ sep # us'" using b Cons u by simp
      also have "\<dots> = py_join [sep] (take (Suc k) (w # v # ws))"
        using k(3) k' by simp
      finally show ?thesis using k(2) by (intro exI [of _ "Suc k"]) simp
    qed
  qed
qed

lemma rsplit1_nonempty: "rsplit1 sep s \<noteq> []"
  by (simp add: rsplit1_def)

lemma rsplit1_hd_decomp:
  assumes "sep \<in> set s"
  shows "\<exists>r. s = hd (rsplit1 sep s) @ sep # r \<and> sep \<notin> set r"
proof -
  let ?P = "\<lambda>c. c \<noteq> sep"
  have "sep \<in> set (rev s)" using assms by simp
  then have ne: "dropWhile ?P (rev s) \<noteq> []"
    by (metis (mono_tags, lifting) dropWhile_eq_Nil_conv)
  then have h: "hd (dropWhile ?P (rev s)) = sep"
    using hd_dropWhile [of ?P "rev s"] by simp
  have "rev s = takeWhile ?P (rev s) @ dropWhile ?P (rev s)" by simp
  also have "\<dots> = takeWhile ?P (rev s) @ sep # tl (dropWhile ?P (rev s))"
    using ne h by (metis list.collapse)
  finally have "rev (rev s) = rev (takeWhile ?P (rev s) @ sep # tl (dropWhile ?P (rev s)))"
    by simp
  then have "s = rev (tl (dropWhile ?P (rev s))) @ sep # rev (takeWhile ?P (rev s))"
    by simp
  moreover have "sep \<notin> set (rev (takeWhile ?P (rev s)))"
    using set_takeWhileD [of sep ?P "rev s"] by auto
  ultimately show ?thesis using assms by (auto simp: rsplit1_def)
qed

lemma rsplit1_hd_whole: "sep \<notin> set s \<Longrightarrow> hd (rsplit1 sep s) = s"
  by (simp add: rsplit1_def)

lemma rsplit1_hd_length: "length (hd (rsplit1 sep s)) \<le> length s"
proof (cases "sep \<in> set s")
  case True
  from rsplit1_hd_decomp [OF True] obtain r where "s = hd (rsplit1 sep s) @ sep # r" by blast
  then have "length s = length (hd (rsplit1 sep s)) + length (sep # r)"
    by (metis length_append)
  then show ?thesis by simp
next
  case False
  then show ?thesis by (simp add: rsplit1_hd_whole)
qed


lemma py_split_skip: "isspace c \<Longrightarrow> py_split (c # s) = py_split s"
  by (simp add: py_split.simps [of "c # s"] py_split.simps [of s])

lemma py_split_empty: "py_split [] = []"
  by (simp add: py_split.simps [of "[]"])

lemma py_split_word:
  assumes "w \<noteq> []" and "\<forall>c \<in> set w. \<not> isspace c"
  shows "py_split w = [w]"
proof -
  have d: "dropWhile isspace w = w" using assms by (cases w) auto
  have t: "takeWhile (\<lambda>x. \<not> isspace x) w = w" using assms(2) by (simp add: takeWhile_eq_all_conv)
  have r: "dropWhile (\<lambda>x. \<not> isspace x) w = []" using assms(2) by simp
  obtain c cs where w: "w = c # cs" using assms(1) by (cases w) auto
  show ?thesis
    using d t r unfolding w by (simp add: py_split.simps [of "c # cs"] py_split_empty)
qed

lemma py_split_word_sep:
  assumes "w \<noteq> []" and "\<forall>c \<in> set w. \<not> isspace c"
  shows "py_split (w @ 32 # s) = w # py_split s"
proof -
  obtain c cs where w: "w = c # cs" using assms(1) by (cases w) auto
  have nc: "\<not> isspace c" using assms(2) w by simp
  have d: "dropWhile isspace (w @ 32 # s) = w @ 32 # s" using nc w by simp
  have t: "takeWhile (\<lambda>x. \<not> isspace x) (w @ 32 # s) = w"
    using assms(2) isspace_space by (simp add: takeWhile_append2)
  have r: "dropWhile (\<lambda>x. \<not> isspace x) (w @ 32 # s) = 32 # s"
    using assms(2) isspace_space by (simp add: dropWhile_append2)
  have "py_split (w @ 32 # s) = w # py_split (32 # s)"
    using d t r unfolding w by (simp add: py_split.simps [of "c # cs @ 32 # s"])
  then show ?thesis by (simp add: py_split_skip isspace_space)
qed

lemma py_split_join:
  assumes "\<forall>w \<in> set ws. w \<noteq> [] \<and> (\<forall>c \<in> set w. \<not> isspace c)"
  shows "py_split (py_join [32] ws) = ws"
  using assms
proof (induction ws rule: induct_list012)
  case 1
  then show ?case by (simp add: py_split_empty)
next
  case (2 w)
  then show ?case by (simp add: py_split_word)
next
  case (3 w v ws)
  then show ?case by (simp add: py_split_word_sep)
qed

lemma py_split_collapse: "py_split (collapse_ws t) = py_split t"
  using py_split_join [of "py_split t"] py_split_words [of _ t]
  by (simp add: collapse_ws_def ascii_space)


lemma py_split_example: "py_split (ascii ''hello   world foo'') = [ascii ''hello'', ascii ''world'', ascii ''foo'']"
  by (simp add: py_split.simps ascii_def isspace_def)

lemma collapse_ws_example: "collapse_ws (ascii ''hello   world foo'') = ascii ''hello world foo''"
  by (simp add: collapse_ws_def py_split.simps ascii_def isspace_def)

lemma clean_text_example: "clean_text (Some (ascii ''hello   world foo'')) 11 = ascii ''hello...''"
  by (simp add: clean_text_def collapse_ws_example slice_to_def) (simp add: ascii_def rsplit1_def)


section \<open>Truncation of descriptions\<close>

text \<open>
  Claim C1. Let the collapsed form of a text be longer than \<open>max_len\<close>, a character
  count (\<open>0 \<le> max_len\<close>). Then the result of \<open>clean_text\<close> is at most \<open>max_len\<close> plus the
  length of the marker \<open>...\<close> long; and when the slice of \<open>max_len\<close> characters contains a
  space, the result is the marker behind whole words of the text: the first \<open>k\<close> words
  joined by single spaces, for some \<open>k\<close> that is at least one and less than the number of
  words, so the result without the marker ends where a word of the collapsed form ends.
\<close>

theorem clean_text_truncates:
  assumes "0 \<le> max_len" and "max_len < int (length (collapse_ws t))"
  shows "int (length (clean_text (Some t) max_len)) \<le> max_len + int (length (ascii ''...''))
       \<and> (32 \<in> set (slice_to max_len (collapse_ws t)) \<longrightarrow>
            (\<exists>k. 0 < k \<and> k < length (py_split t)
               \<and> clean_text (Some t) max_len
                   = py_join (ascii '' '') (take k (py_split t)) @ ascii ''...''))"
proof -
  let ?c = "collapse_ws t"
  let ?s = "slice_to max_len ?c"
  have tne: "t \<noteq> []"
  proof
    assume "t = []"
    then have "?c = []" by (simp add: collapse_ws_def py_split.simps [of "[]"])
    with assms show False by simp
  qed
  have s: "?s = take (nat max_len) ?c" using assms(1) by (simp add: slice_to_def)
  have len: "int (length ?s) = max_len" using assms by (simp add: s)
  have ct: "clean_text (Some t) max_len = hd (rsplit1 32 ?s) @ ascii ''...''"
    using tne len by (simp add: clean_text_def Let_def)
  have "int (length (hd (rsplit1 32 ?s))) \<le> max_len"
    using rsplit1_hd_length [of 32 ?s] len by linarith
  then have A: "int (length (clean_text (Some t) max_len)) \<le> max_len + int (length (ascii ''...''))"
    by (simp add: ct)
  have B: "\<exists>k. 0 < k \<and> k < length (py_split t)
               \<and> clean_text (Some t) max_len
                   = py_join (ascii '' '') (take k (py_split t)) @ ascii ''...''"
    if sp: "32 \<in> set ?s"
  proof -
    from rsplit1_hd_decomp [OF sp] obtain r where r: "?s = hd (rsplit1 32 ?s) @ 32 # r" by blast
    have "?c = ?s @ drop (nat max_len) ?c" by (simp add: s)
    also have "\<dots> = (hd (rsplit1 32 ?s) @ 32 # r) @ drop (nat max_len) ?c"
      using r by (rule arg_cong)
    finally have "?c = hd (rsplit1 32 ?s) @ 32 # (r @ drop (nat max_len) ?c)"
      by simp
    then have "py_join [32] (py_split t) = hd (rsplit1 32 ?s) @ 32 # (r @ drop (nat max_len) ?c)"
      by (simp add: collapse_ws_def ascii_space)
    moreover have "\<forall>w \<in> set (py_split t). 32 \<notin> set w"
      using py_split_words isspace_space by blast
    ultimately obtain k where "0 < k" "k < length (py_split t)"
      "hd (rsplit1 32 ?s) = py_join [32] (take k (py_split t))"
      using join_cut_at_sep by blast
    then show ?thesis using ct by (auto simp: ascii_space)
  qed
  from A B show ?thesis by blast
qed

theorem clean_text_truncates_witness:
  "(0::int) \<le> 11 \<and> 11 < int (length (collapse_ws (ascii ''hello   world foo'')))
   \<and> int (length (clean_text (Some (ascii ''hello   world foo'')) 11)) \<le> 11 + 3
   \<and> 32 \<in> set (slice_to 11 (collapse_ws (ascii ''hello   world foo'')))
   \<and> clean_text (Some (ascii ''hello   world foo'')) 11 = ascii ''hello...''"
proof -
  have h1: "(0::int) \<le> 11" by simp
  have h2: "11 < int (length (collapse_ws (ascii ''hello   world foo'')))"
    by (simp add: collapse_ws_example) (simp add: ascii_def)
  have h3: "32 \<in> set (slice_to 11 (collapse_ws (ascii ''hello   world foo'')))"
    by (simp add: collapse_ws_example slice_to_def) (simp add: ascii_def)
  show ?thesis
    using clean_text_truncates [OF h1 h2] h1 h2 h3 clean_text_example by (simp add: ascii_dots)
qed

section \<open>Deduplication\<close>

lemma upt_filter_Suc:
  "map f (filter P [0..<Suc n])
     = (if P 0 then [f 0] else []) @ map (\<lambda>i. f (Suc i)) (filter (\<lambda>i. P (Suc i)) [0..<n])"
proof -
  have "[0..<Suc n] = 0 # map Suc [0..<n]"
    by (simp add: upt_conv_Cons map_Suc_upt del: upt_Suc)
  then show ?thesis
    by (simp add: filter_map comp_def del: upt_Suc)
qed

lemma unique_loop_first_occurrences:
  "unique_loop xs seen uniq =
     uniq @ map (\<lambda>i. xs ! i)
       (filter (\<lambda>i. (\<exists>url. get_default (a_url (xs ! i)) [] = Some url \<and> url \<noteq> [] \<and> url \<notin> seen)
                  \<and> (\<forall>j<i. get_default (a_url (xs ! j)) [] \<noteq> get_default (a_url (xs ! i)) []))
          [0..<length xs])"
proof (induction xs arbitrary: seen uniq)
  case Nil
  then show ?case by simp
next
  case (Cons x xs)
  let ?u = "\<lambda>a. get_default (a_url a) []"
  let ?K = "\<lambda>S a. \<exists>url. ?u a = Some url \<and> url \<noteq> [] \<and> url \<notin> S"
  let ?F = "\<lambda>S ys i. ?K S (ys ! i) \<and> (\<forall>j<i. ?u (ys ! j) \<noteq> ?u (ys ! i))"
  have shift: "?F seen (x # xs) (Suc i) \<longleftrightarrow> ?K seen (xs ! i) \<and> ?u x \<noteq> ?u (xs ! i)
                 \<and> (\<forall>j<i. ?u (xs ! j) \<noteq> ?u (xs ! i))" for i
    by (simp add: All_less_Suc2)
  have zero: "?F seen (x # xs) 0 \<longleftrightarrow> ?K seen x" by simp
  have rhs: "map (\<lambda>i. (x # xs) ! i) (filter (?F seen (x # xs)) [0..<length (x # xs)])
        = (if ?K seen x then [x] else [])
          @ map (\<lambda>i. xs ! i)
              (filter (\<lambda>i. ?K seen (xs ! i) \<and> ?u x \<noteq> ?u (xs ! i)
                 \<and> (\<forall>j<i. ?u (xs ! j) \<noteq> ?u (xs ! i))) [0..<length xs])"
    using upt_filter_Suc [of "\<lambda>i. (x # xs) ! i" "?F seen (x # xs)" "length xs"]
    unfolding shift zero by simp
  show ?case
  proof (cases "?K seen x")
    case True
    then obtain url where url: "?u x = Some url" "url \<noteq> []" "url \<notin> seen" by blast
    have K: "?K (insert url seen) a \<longleftrightarrow> ?K seen a \<and> ?u x \<noteq> ?u a" for a :: raw_article
      using url by auto
    have "unique_loop (x # xs) seen uniq = unique_loop xs (insert url seen) (uniq @ [x])"
      using url by simp
    also have "\<dots> = (uniq @ [x]) @ map (\<lambda>i. xs ! i) (filter (?F (insert url seen) xs) [0..<length xs])"
      by (rule Cons.IH)
    also have "filter (?F (insert url seen) xs) [0..<length xs]
         = filter (\<lambda>i. ?K seen (xs ! i) \<and> ?u x \<noteq> ?u (xs ! i)
                 \<and> (\<forall>j<i. ?u (xs ! j) \<noteq> ?u (xs ! i))) [0..<length xs]"
      by (rule filter_cong [OF refl]) (simp only: K conj_assoc)
    finally show ?thesis using True unfolding rhs by simp
  next
    case False
    have K: "?K seen a \<Longrightarrow> ?u x \<noteq> ?u a" for a :: raw_article
      using False by auto
    have "unique_loop (x # xs) seen uniq = unique_loop xs seen uniq"
      using False by (auto split: option.splits)
    also have "\<dots> = uniq @ map (\<lambda>i. xs ! i) (filter (?F seen xs) [0..<length xs])"
      by (rule Cons.IH)
    also have "filter (?F seen xs) [0..<length xs]
         = filter (\<lambda>i. ?K seen (xs ! i) \<and> ?u x \<noteq> ?u (xs ! i)
                 \<and> (\<forall>j<i. ?u (xs ! j) \<noteq> ?u (xs ! i))) [0..<length xs]"
      by (rule filter_cong [OF refl]) (use K in blast)
    finally show ?thesis using False unfolding rhs by simp
  qed
qed

text \<open>
  Claim C3. The deduplicated list consists of the articles of the fetched list, in the order
  of the fetched list, that carry a url (not missing, null or empty) which no earlier
  article of the list carries: exactly the first occurrence of each url.
\<close>

theorem dedup_first_occurrences:
  "dedup_by_url arts =
     map (\<lambda>i. arts ! i)
       (filter (\<lambda>i. truthy (get_default (a_url (arts ! i)) [])
                  \<and> (\<forall>j<i. get_default (a_url (arts ! j)) [] \<noteq> get_default (a_url (arts ! i)) []))
          [0..<length arts])"
proof -
  have "truthy v \<longleftrightarrow> (\<exists>url. v = Some url \<and> url \<noteq> [] \<and> url \<notin> {})" for v
    by (cases v) (simp_all add: truthy_def)
  then show ?thesis
    by (simp add: dedup_by_url_def unique_loop_first_occurrences)
qed

section \<open>The digest, the fetcher and the run\<close>

lemma slice_to_nonneg: "0 \<le> n \<Longrightarrow> slice_to n xs = take (nat n) xs"
  by (simp add: slice_to_def)

lemma dedup_truthy:
  assumes "a \<in> set (dedup_by_url arts)"
  shows "\<exists>url. get_default (a_url a) [] = Some url \<and> url \<noteq> []"
  using assms unfolding dedup_by_url_def unique_loop_first_occurrences by auto

lemma map_raise_all2:
  "map_raise f xs = Inr ys \<Longrightarrow> list_all2 (\<lambda>x y. f x = Inr y) xs ys"
  by (induction xs arbitrary: ys) (auto split: sum.splits)

lemma create_summary_url:
  "create_summary a = Inr s \<Longrightarrow> s_url s = get_default (a_url a) []"
  by (auto simp: create_summary_def split: option.splits)

lemma dict_set_entries:
  "(k, v) \<in> set (dict_set d key w) \<Longrightarrow> (k, v) \<in> set d \<or> (k, v) = (key, w)"
  by (induction d key w rule: dict_set.induct) (auto split: if_splits)

lemma dict_set_keys_new:
  "key \<notin> fst ` set d \<Longrightarrow> map fst (dict_set d key w) = map fst d @ [key]"
  by (induction d key w rule: dict_set.induct) auto

text \<open>Every entry of the built digest was there before or holds the summaries of the
  first four unique articles of some article list.\<close>

lemma fetch_categories_entries:
  assumes "fetch_categories http cats nd = (Inr nd', tr)" and "(k, v) \<in> set nd'"
  shows "(k, v) \<in> set nd
       \<or> (\<exists>all. map_raise create_summary (slice_to 4 (dedup_by_url all)) = Inr v)"
  using assms
proof (induction http cats nd arbitrary: tr rule: fetch_categories.induct)
  case (1 http news_data)
  then show ?case by simp
next
  case (2 http cat_key queries rest news_data)
  from "2.prems"(1) obtain all_articles tr1 summaries tr2 where
    fq: "fetch_queries http queries [] = (Inr all_articles, tr1)"
    and mr: "map_raise create_summary (slice_to 4 (dedup_by_url all_articles)) = Inr summaries"
    and rec: "fetch_categories http rest (dict_set news_data cat_key summaries) = (Inr nd', tr2)"
    by (auto split: prod.splits sum.splits)
  from "2.IH" [OF fq [symmetric] refl mr rec "2.prems"(2)]
  have "(k, v) \<in> set (dict_set news_data cat_key summaries)
       \<or> (\<exists>all. map_raise create_summary (slice_to 4 (dedup_by_url all)) = Inr v)" .
  then show ?case using dict_set_entries mr by fast
qed

lemma fetch_categories_keys:
  assumes "fetch_categories http cats nd = (Inr nd', tr)"
    and "distinct (map fst nd @ map fst cats)"
  shows "map fst nd' = map fst nd @ map fst cats"
  using assms
proof (induction http cats nd arbitrary: tr rule: fetch_categories.induct)
  case (1 http news_data)
  then show ?case by simp
next
  case (2 http cat_key queries rest news_data)
  from "2.prems"(1) obtain all_articles tr1 summaries tr2 where
    fq: "fetch_queries http queries [] = (Inr all_articles, tr1)"
    and mr: "map_raise create_summary (slice_to 4 (dedup_by_url all_articles)) = Inr summaries"
    and rec: "fetch_categories http rest (dict_set news_data cat_key summaries) = (Inr nd', tr2)"
    by (auto split: prod.splits sum.splits)
  have new: "cat_key \<notin> fst ` set news_data" using "2.prems"(2) by auto
  have keys: "map fst (dict_set news_data cat_key summaries) = map fst news_data @ [cat_key]"
    by (rule dict_set_keys_new [OF new])
  have "distinct (map fst (dict_set news_data cat_key summaries) @ map fst rest)"
    using "2.prems"(2) by (simp add: keys)
  from "2.IH" [OF fq [symmetric] refl mr rec this]
  show ?case by (simp add: keys)
qed

text \<open>
  Claim C4. Whatever the API answers, every category of a digest that \<open>fetch_all_news\<close>
  returns holds at most 4 summaries.
\<close>

theorem digest_capped:
  assumes "fetch_all_news http = (Inr news_data, tr)" and "(k, v) \<in> set news_data"
  shows "length v \<le> 4"
proof -
  from fetch_categories_entries [OF assms(1) [unfolded fetch_all_news_def] assms(2)]
  obtain all where "map_raise create_summary (slice_to 4 (dedup_by_url all)) = Inr v"
    by auto
  then have "length v = length (slice_to 4 (dedup_by_url all))"
    using map_raise_all2 list_all2_lengthD by fastforce
  then show ?thesis by (simp add: slice_to_nonneg)
qed

text \<open>
  Claim C10. An article whose url is missing, null or empty is not in the deduplicated list,
  wherever it stands; and every summary in a digest that \<open>fetch_all_news\<close> returns has a
  url that is a non-empty string.
\<close>

theorem digest_urls_nonempty:
  "(a \<in> set arts \<and> a_url a \<in> {Missing, Null, Val []} \<longrightarrow> a \<notin> set (dedup_by_url arts))
   \<and> (fetch_all_news http = (Inr news_data, tr) \<and> (k, v) \<in> set news_data \<and> s \<in> set v
        \<longrightarrow> (\<exists>url. s_url s = Some url \<and> url \<noteq> []))"
proof -
  have A: "a \<notin> set (dedup_by_url arts)" if "a_url a \<in> {Missing, Null, Val []}"
    using that dedup_truthy [of a arts] by (auto simp: get_default_def)
  have B: "\<exists>url. s_url s = Some url \<and> url \<noteq> []"
    if f: "fetch_all_news http = (Inr news_data, tr)" and kv: "(k, v) \<in> set news_data"
      and s: "s \<in> set v"
  proof -
    from fetch_categories_entries [OF f [unfolded fetch_all_news_def] kv]
    obtain all where "map_raise create_summary (slice_to 4 (dedup_by_url all)) = Inr v"
      by auto
    then have "list_all2 (\<lambda>x y. create_summary x = Inr y) (slice_to 4 (dedup_by_url all)) v"
      by (rule map_raise_all2)
    then have len: "length (slice_to 4 (dedup_by_url all)) = length v"
      and nth: "\<And>i. i < length v \<Longrightarrow> create_summary (slice_to 4 (dedup_by_url all) ! i) = Inr (v ! i)"
      by (simp_all add: list_all2_conv_all_nth)
    from s obtain i where i: "i < length v" "v ! i = s"
      by (auto simp: in_set_conv_nth)
    define x where "x = slice_to 4 (dedup_by_url all) ! i"
    have x: "x \<in> set (slice_to 4 (dedup_by_url all))" "create_summary x = Inr s"
      using i len nth [of i] by (simp_all add: x_def)
    from x(1) have "x \<in> set (dedup_by_url all)"
      by (auto simp: slice_to_nonneg dest: in_set_takeD)
    with dedup_truthy create_summary_url [OF x(2)] show ?thesis by simp
  qed
  from A B show ?thesis by blast
qed

text \<open>
  Claim C6. When the request or the parse raises, \<open>search_news\<close> logs an error and returns
  the empty list; so it does for every exception raised inside its \<open>try\<close> block, and when
  the status of the response is not \<open>ok\<close>. In every case it returns a list and raises
  nothing.
\<close>

theorem search_news_swallows:
  "(http query = Raises e \<longrightarrow> search_news http query = (Inr [], [HttpGet query, Log ERROR]))
   \<and> (search_news_try (http query) = Inl e \<longrightarrow> fst (search_news http query) = Inr [])
   \<and> (http query = Returns (Object st arts) \<and> get st \<noteq> Some (ascii ''ok'')
        \<longrightarrow> fst (search_news http query) = Inr [])
   \<and> (\<exists>result. fst (search_news http query) = Inr result)"
  by (auto simp: search_news_def search_news_try_def split: sum.splits)

text \<open>
  Claim C7. For a response with status \<open>ok\<close>, \<open>search_news\<close> returns the first 6 of the
  delivered articles whose title is present, not empty and not \<open>[Removed]\<close>, in the order
  of delivery.
\<close>

theorem search_news_filters:
  assumes "http query = Returns (Object (Val (ascii ''ok'')) arts)"
  shows "fst (search_news http query) =
           Inr (take 6 (filter (\<lambda>a. case a_title a of
                                       Val t \<Rightarrow> t \<noteq> [] \<and> t \<noteq> ascii ''[Removed]''
                                     | _ \<Rightarrow> False)
                          (case arts of Val as \<Rightarrow> as | _ \<Rightarrow> [])))"
proof -
  have t: "title_ok = (\<lambda>a. case a_title a of
                                       Val t \<Rightarrow> t \<noteq> [] \<and> t \<noteq> ascii ''[Removed]''
                                     | _ \<Rightarrow> False)"
    by (auto simp: title_ok_def truthy_def get_def fun_eq_iff split: field.splits)
  show ?thesis
    using assms unfolding t [symmetric]
    by (cases arts)
       (simp_all add: search_news_def search_news_try_def get_def get_default_def slice_to_nonneg)
qed

lemma search_news_events: "set (snd (search_news http q)) \<subseteq> {HttpGet q, Log ERROR}"
  by (auto simp: search_news_def split: sum.splits)

lemma fetch_queries_events:
  "SmtpSend a b c \<notin> set (snd (fetch_queries http qs all))"
proof (induction qs arbitrary: all)
  case Nil
  then show ?case by simp
next
  case (Cons q qs)
  have sn: "SmtpSend a b c \<notin> set (snd (search_news http q))"
    using search_news_events [of http q] by auto
  show ?case
  proof (cases "search_news http q")
    case (Pair r tr1)
    show ?thesis
    proof (cases r)
      case (Inl e)
      with Pair sn show ?thesis by simp
    next
      case (Inr articles)
      with Pair sn Cons.IH [of "all @ articles"] show ?thesis
        by (auto split: prod.splits)
    qed
  qed
qed

lemma fetch_categories_events:
  "SmtpSend a b c \<notin> set (snd (fetch_categories http cats nd))"
proof (induction http cats nd rule: fetch_categories.induct)
  case (1 http news_data)
  then show ?case by simp
next
  case (2 http cat_key queries rest news_data)
  have q: "SmtpSend a b c \<notin> set (snd (fetch_queries http queries []))"
    by (rule fetch_queries_events)
  show ?case
  proof (cases "fetch_queries http queries []")
    case (Pair r tr1)
    note fq = this
    show ?thesis
    proof (cases r)
      case (Inl e)
      with fq q show ?thesis by simp
    next
      case (Inr all_articles)
      show ?thesis
      proof (cases "map_raise create_summary (slice_to 4 (dedup_by_url all_articles))")
        case (Inl e)
        with fq Inr q show ?thesis by simp
      next
        case (Inr summaries)
        note mr = this
        from "2.IH" [OF fq [symmetric] \<open>r = Inr all_articles\<close> mr]
        have "SmtpSend a b c \<notin> set (snd (fetch_categories http rest (dict_set news_data cat_key summaries)))" .
        with fq \<open>r = Inr all_articles\<close> mr q show ?thesis
          by (auto split: prod.splits)
      qed
    qed
  qed
qed

text \<open>
  Claim C5. When the fetched digest holds no article in any category, \<open>run\<close> returns
  \<open>False\<close> and \<open>send\<close> is not called: no \<open>SmtpSend\<close> event occurs in the run.
\<close>

theorem run_without_articles:
  assumes "fetch_all_news (api w) = (Inr news_data, tr)"
    and "sum_list (map (\<lambda>(k, a). length a) news_data) = 0"
  shows "fst (run w date_str) = Inr False
       \<and> (\<forall>subject text html. SmtpSend subject text html \<notin> set (snd (run w date_str)))"
proof -
  have r: "run w date_str = (Inr False, [Log INFO] @ tr @ [Log WARNING])"
    using assms by (simp add: run_def)
  have "SmtpSend a b c \<notin> set tr" for a b c
    using fetch_categories_events [of a b c "api w" TOPICS "[]"] assms(1)
    by (simp add: fetch_all_news_def)
  then show ?thesis by (simp add: r)
qed

section \<open>The renderer\<close>

lemma foldl_html_items:
  "foldl (\<lambda>h news. h @ html_item news) h articles = h @ concat (map html_item articles)"
  by (induction articles arbitrary: h) simp_all

lemma html_loop_sections:
  "html_loop cats nd (t, h) =
     (t + sum_list (map (\<lambda>(k, e, n, d). length (dict_get nd k)) cats),
      h @ concat (map (\<lambda>(k, e, n, d). html_section e n (dict_get nd k))
                   (filter (\<lambda>(k, e, n, d). dict_get nd k \<noteq> []) cats)))"
proof (induction cats arbitrary: t h)
  case Nil
  then show ?case by simp
next
  case (Cons c cats)
  obtain k e n d where c: "c = (k, e, n, d)" by (cases c) auto
  show ?case
    unfolding c by (simp add: Cons.IH Let_def foldl_html_items html_section_def)
qed

lemma text_items_acc:
  "text_items i articles t =
     (case text_items i articles [] of Inl e \<Rightarrow> Inl e | Inr r \<Rightarrow> Inr (t @ r))"
proof (induction articles arbitrary: i t)
  case Nil
  then show ?case by simp
next
  case (Cons a articles)
  show ?case
  proof (cases "text_item i a")
    case (Inl e)
    then show ?thesis by simp
  next
    case (Inr x)
    have "text_items i (a # articles) t = text_items (Suc i) articles (t @ x)"
      using Inr by simp
    also have "\<dots> = (case text_items (Suc i) articles [] of
                        Inl e \<Rightarrow> Inl e | Inr r \<Rightarrow> Inr ((t @ x) @ r))"
      by (rule Cons.IH)
    finally have l: "text_items i (a # articles) t =
        (case text_items (Suc i) articles [] of Inl e \<Rightarrow> Inl e | Inr r \<Rightarrow> Inr (t @ x @ r))"
      unfolding append_assoc .
    have "text_items i (a # articles) [] = text_items (Suc i) articles x"
      using Inr by simp
    also have "\<dots> = (case text_items (Suc i) articles [] of
                        Inl e \<Rightarrow> Inl e | Inr r \<Rightarrow> Inr (x @ r))"
      by (rule Cons.IH)
    finally show ?thesis unfolding l by (simp split: sum.splits)
  qed
qed

lemma text_items_total:
  "\<forall>s \<in> set articles. s_url s \<noteq> None \<Longrightarrow> \<exists>r. text_items i articles t = Inr r"
proof (induction articles arbitrary: i t)
  case Nil
  then show ?case by simp
next
  case (Cons a articles)
  then obtain url where "s_url a = Some url" by auto
  then obtain x where "text_item i a = Inr x" by (simp add: text_item_def)
  then show ?case using Cons by simp
qed

lemma text_loop_sections:
  assumes "text_loop cats nd t = Inr text"
  shows "\<exists>secs. map (\<lambda>(k, e, n, d). text_section e n (dict_get nd k))
                  (filter (\<lambda>(k, e, n, d). dict_get nd k \<noteq> []) cats) = map Inr secs
               \<and> text = t @ concat secs"
  using assms
proof (induction cats arbitrary: t)
  case Nil
  then show ?case by simp
next
  case (Cons c cats)
  obtain k e n d where c: "c = (k, e, n, d)" by (cases c) auto
  show ?case
  proof (cases "dict_get nd k = []")
    case True
    with Cons.prems have "text_loop cats nd t = Inr text" by (simp add: c)
    from Cons.IH [OF this] show ?thesis using True by (simp add: c)
  next
    case False
    with Cons.prems obtain t' where
      t': "text_items 1 (dict_get nd k) (t @ text_cat_header e n) = Inr t'"
      and rest: "text_loop cats nd t' = Inr text"
      by (auto simp: c Let_def split: sum.splits)
    from t' obtain sec where sec: "text_section e n (dict_get nd k) = Inr sec"
      and t'_eq: "t' = t @ sec"
      unfolding text_section_def
      using text_items_acc [of 1 "dict_get nd k" "t @ text_cat_header e n"]
        text_items_acc [of 1 "dict_get nd k" "text_cat_header e n"]
      by (auto split: sum.splits)
    from Cons.IH [OF rest] obtain secs where
      secs: "map (\<lambda>(k, e, n, d). text_section e n (dict_get nd k))
                  (filter (\<lambda>(k, e, n, d). dict_get nd k \<noteq> []) cats) = map Inr secs"
      and tx: "text = t' @ concat secs" by blast
    have "map (\<lambda>(k, e, n, d). text_section e n (dict_get nd k))
                  (filter (\<lambda>(k, e, n, d). dict_get nd k \<noteq> []) (c # cats)) = map Inr (sec # secs)"
      using False sec secs by (simp add: c)
    moreover have "text = t @ concat (sec # secs)" using tx t'_eq by simp
    ultimately show ?thesis by blast
  qed
qed

lemma text_loop_total:
  assumes "\<forall>c \<in> set cats. \<forall>s \<in> set (dict_get nd (fst c)). s_url s \<noteq> None"
  shows "\<exists>text. text_loop cats nd t = Inr text"
  using assms
proof (induction cats arbitrary: t)
  case Nil
  then show ?case by simp
next
  case (Cons c cats)
  obtain k e n d where c: "c = (k, e, n, d)" by (cases c) auto
  from Cons.prems have u: "\<forall>s \<in> set (dict_get nd k). s_url s \<noteq> None" by (simp add: c)
  from text_items_total [OF u] obtain t' where
    "text_items 1 (dict_get nd k) (t @ text_cat_header e n) = Inr t'" by blast
  moreover have "\<exists>text. text_loop cats nd t' = Inr text" for t'
    using Cons.IH Cons.prems by simp
  ultimately show ?case by (simp add: c Let_def)
qed

lemma dict_get_in_values:
  "\<exists>v. (k, v) \<in> set nd \<and> s \<in> set v" if "s \<in> set (dict_get nd k)"
proof (cases "map_of nd k")
  case None
  then show ?thesis using that by (simp add: dict_get_def)
next
  case (Some v)
  then have "(k, v) \<in> set nd" by (rule map_of_SomeD)
  moreover have "s \<in> set v" using that Some by (simp add: dict_get_def)
  ultimately show ?thesis by blast
qed

text \<open>
  Claim C8. For a digest whose summaries all carry a url string, \<open>create_email\<close> returns
  both renderings. Whenever it returns, the HTML is the head, then one section for each
  entry of \<open>cat_info\<close> whose category has articles, in the order of \<open>cat_info\<close>, then the
  statistics; and the text is its head, one section for each of the same entries in the same
  order, and its foot. A category without articles has no section in either.
\<close>

theorem create_email_sections:
  "((\<forall>(k, v) \<in> set news_data. \<forall>s \<in> set v. s_url s \<noteq> None)
      \<longrightarrow> (\<exists>text html. create_email news_data date_str = Inr (text, html)))
   \<and> (create_email news_data date_str = Inr (text, html) \<longrightarrow>
        html = html_head date_str
               @ concat (map (\<lambda>(k, e, n, d). html_section e n (dict_get news_data k))
                           (filter (\<lambda>(k, e, n, d). dict_get news_data k \<noteq> []) cat_info))
               @ html_stats (sum_list (map (\<lambda>(k, e, n, d). length (dict_get news_data k)) cat_info))
                   (length (filter (\<lambda>(k, v). v \<noteq> []) news_data))
        \<and> (\<exists>secs. map (\<lambda>(k, e, n, d). text_section e n (dict_get news_data k))
                      (filter (\<lambda>(k, e, n, d). dict_get news_data k \<noteq> []) cat_info) = map Inr secs
                  \<and> text = text_head date_str @ concat secs
                           @ text_foot (sum_list (map (\<lambda>(k, e, n, d). length (dict_get news_data k)) cat_info))))"
proof (intro conjI impI)
  assume a: "\<forall>(k, v) \<in> set news_data. \<forall>s \<in> set v. s_url s \<noteq> None"
  have "\<forall>c \<in> set cat_info. \<forall>s \<in> set (dict_get news_data (fst c)). s_url s \<noteq> None"
    using a dict_get_in_values by fast
  from text_loop_total [OF this] obtain t where
    "text_loop cat_info news_data (text_head date_str) = Inr t" by blast
  then show "\<exists>text html. create_email news_data date_str = Inr (text, html)"
    by (simp add: create_email_def html_loop_sections)
next
  assume r: "create_email news_data date_str = Inr (text, html)"
  then obtain t where t: "text_loop cat_info news_data (text_head date_str) = Inr t"
    by (auto simp: create_email_def html_loop_sections split: sum.splits)
  from r t show "html = html_head date_str
               @ concat (map (\<lambda>(k, e, n, d). html_section e n (dict_get news_data k))
                           (filter (\<lambda>(k, e, n, d). dict_get news_data k \<noteq> []) cat_info))
               @ html_stats (sum_list (map (\<lambda>(k, e, n, d). length (dict_get news_data k)) cat_info))
                   (length (filter (\<lambda>(k, v). v \<noteq> []) news_data))"
    by (simp add: create_email_def html_loop_sections)
  from r t have tx: "text = t @ text_foot (sum_list (map (\<lambda>(k, e, n, d). length (dict_get news_data k)) cat_info))"
    by (simp add: create_email_def html_loop_sections)
  from text_loop_sections [OF t] tx
  show "\<exists>secs. map (\<lambda>(k, e, n, d). text_section e n (dict_get news_data k))
                      (filter (\<lambda>(k, e, n, d). dict_get news_data k \<noteq> []) cat_info) = map Inr secs
                  \<and> text = text_head date_str @ concat secs
                           @ text_foot (sum_list (map (\<lambda>(k, e, n, d). length (dict_get news_data k)) cat_info))"
    by auto
qed

lemma TOPICS_keys:
  "map fst TOPICS = [ascii ''national'', ascii ''international'', ascii ''economy'',
     ascii ''technology'', ascii ''science'', ascii ''health'', ascii ''education'',
     ascii ''environment'']"
  by (simp add: TOPICS_def)

lemma cat_info_keys:
  "map fst cat_info = [ascii ''national'', ascii ''international'', ascii ''economy'',
     ascii ''science'', ascii ''education'', ascii ''environment'', ascii ''technology'',
     ascii ''health'']"
  by (simp add: cat_info_def)

lemma keys_distinct: "distinct (map fst TOPICS)"
  unfolding TOPICS_keys by (simp add: ascii_def)

lemma keys_same_set: "set (map fst TOPICS) = set (map fst cat_info)"
  unfolding TOPICS_keys cat_info_keys by auto

text \<open>
  Claim C9, as stated, fails: no key of \<open>TOPICS\<close> is missing from \<open>cat_info\<close> and no key
  of \<open>cat_info\<close> is missing from \<open>TOPICS\<close>.
\<close>

theorem category_keys_counterexample:
  "set (map fst TOPICS) - set (map fst cat_info) = {}
   \<and> set (map fst cat_info) - set (map fst TOPICS) = {}"
  using keys_same_set by simp

text \<open>
  Claim C9, amended. The builder's keys and the renderer's keys are the same set, so every
  category of a built digest that has articles is among the sections the renderer writes.
\<close>

theorem category_keys_agree:
  "set (map fst TOPICS) = set (map fst cat_info)
   \<and> (fetch_all_news http = (Inr news_data, tr) \<and> (k, v) \<in> set news_data \<and> v \<noteq> []
        \<longrightarrow> k \<in> fst ` set (filter (\<lambda>(k, e, n, d). dict_get news_data k \<noteq> []) cat_info))"
proof (intro conjI impI)
  show "set (map fst TOPICS) = set (map fst cat_info)" by (rule keys_same_set)
next
  assume a: "fetch_all_news http = (Inr news_data, tr) \<and> (k, v) \<in> set news_data \<and> v \<noteq> []"
  then have f: "fetch_categories http TOPICS [] = (Inr news_data, tr)"
    by (simp add: fetch_all_news_def)
  have keys: "map fst news_data = map fst TOPICS"
    using fetch_categories_keys [OF f] keys_distinct by simp
  then have "distinct (map fst news_data)" using keys_distinct by simp
  with a have "map_of news_data k = Some v" by simp
  then have g: "dict_get news_data k = v" by (simp add: dict_get_def)
  from a have "k \<in> set (map fst news_data)" by force
  then have "k \<in> set (map fst cat_info)" using keys keys_same_set by simp
  then obtain c where c: "c \<in> set cat_info" "fst c = k" by auto
  obtain e n d where "c = (k, e, n, d)" using c(2) by (cases c) auto
  with c(1) g a have "c \<in> set (filter (\<lambda>(k, e, n, d). dict_get news_data k \<noteq> []) cat_info)"
    by simp
  with c(2) show "k \<in> fst ` set (filter (\<lambda>(k, e, n, d). dict_get news_data k \<noteq> []) cat_info)"
    by force
qed

section \<open>Worked examples\<close>

lemma ex_search_isro:
  "fst (search_news ex_api (ascii ''ISRO mission'')) =
     Inr [ex_article ''A'' Missing, ex_article ''B'' (Val (ascii ''u1'')), ex_article ''C'' (Val []),
          ex_article ''D'' (Val (ascii ''u2'')), ex_article ''E'' (Val (ascii ''u1'')),
          ex_article ''F'' (Val (ascii ''u3''))]"
  by (simp add: search_news_def search_news_try_def ex_api_def get_def get_default_def
        slice_to_def title_ok_def truthy_def ex_article_def ascii_def)

lemma ex_dedup:
  "dedup_by_url ex_fetched =
     [ex_article ''B'' (Val (ascii ''u1'')), ex_article ''D'' (Val (ascii ''u2'')),
      ex_article ''F'' (Val (ascii ''u3'')), ex_article ''J'' (Val (ascii ''u5'')),
      ex_article ''K'' (Val (ascii ''u6''))]"
  by (simp add: dedup_by_url_def ex_fetched_def get_default_def ex_article_def ascii_def)

lemma ex_fetch_technology:
  "fetch_queries ex_api [ascii ''AI technology India'', ascii ''ISRO mission'',
       ascii ''cybersecurity India'', ascii ''tech news India''] []
   = (Inr ex_fetched,
      [HttpGet (ascii ''AI technology India''), Log ERROR, Sleep,
       HttpGet (ascii ''ISRO mission''), Sleep,
       HttpGet (ascii ''cybersecurity India''), Log ERROR, Sleep,
       HttpGet (ascii ''tech news India''), Sleep])"
  by (simp add: search_news_def search_news_try_def ex_api_def get_def get_default_def
        slice_to_def title_ok_def truthy_def ex_article_def ex_fetched_def ascii_def)

lemma ex_summaries:
  "map_raise create_summary (slice_to 4 (dedup_by_url ex_fetched)) =
     Inr [ex_summary ''B'' ''u1'', ex_summary ''D'' ''u2'', ex_summary ''F'' ''u3'',
          ex_summary ''J'' ''u5'']"
  unfolding ex_dedup
  by (simp add: slice_to_def create_summary_def get_default_def ex_article_def ex_summary_def
        clean_text_def collapse_ws_def py_split.simps isspace_def)
     (simp add: ascii_def py_split.simps isspace_def)

lemma fetch_queries_down:
  "\<forall>q \<in> set qs. fst (search_news http q) = Inr [] \<Longrightarrow> fst (fetch_queries http qs all) = Inr all"
proof (induction qs arbitrary: all)
  case Nil
  then show ?case by simp
next
  case (Cons q qs)
  then have q: "fst (search_news http q) = Inr []" by simp
  have "fst (fetch_queries http qs (all @ [])) = Inr (all @ [])"
    using Cons by simp
  with q show ?case by (auto split: prod.splits sum.splits)
qed

lemma fetch_categories_step:
  assumes "fst (fetch_queries http qs []) = Inr all"
    and "map_raise create_summary (slice_to 4 (dedup_by_url all)) = Inr sums"
  shows "fst (fetch_categories http ((k, qs) # rest) nd)
       = fst (fetch_categories http rest (dict_set nd k sums))"
  using assms by (auto split: prod.splits sum.splits)

lemma no_articles_no_summaries:
  "map_raise create_summary (slice_to 4 (dedup_by_url [])) = Inr []"
  by (simp add: dedup_by_url_def slice_to_def)

lemma fetch_categories_down:
  assumes "\<forall>c \<in> set cats. \<forall>q \<in> set (snd c). fst (search_news http q) = Inr []"
  shows "fst (fetch_categories http (cats @ rest) nd)
       = fst (fetch_categories http rest (foldl (\<lambda>d c. dict_set d (fst c) []) nd cats))"
  using assms
proof (induction cats arbitrary: nd)
  case Nil
  then show ?case by simp
next
  case (Cons c cats)
  obtain k qs where c: "c = (k, qs)" by (cases c) auto
  have "fst (fetch_queries http qs []) = Inr []"
    using Cons.prems by (intro fetch_queries_down) (simp add: c)
  from fetch_categories_step [OF this no_articles_no_summaries]
  have "fst (fetch_categories http ((k, qs) # cats @ rest) nd)
      = fst (fetch_categories http (cats @ rest) (dict_set nd k []))" .
  also have "\<dots> = fst (fetch_categories http rest
                        (foldl (\<lambda>d c. dict_set d (fst c) []) (dict_set nd k []) cats))"
    using Cons.prems by (intro Cons.IH) simp
  finally show ?case by (simp add: c)
qed

lemma ex_api_down:
  "q \<noteq> ascii ''ISRO mission'' \<Longrightarrow> q \<noteq> ascii ''tech news India''
    \<Longrightarrow> fst (search_news ex_api q) = Inr []"
  by (simp add: search_news_def search_news_try_def ex_api_def get_def get_default_def
        slice_to_def split: sum.splits)

lemma TOPICS_folded: "foldl (\<lambda>d c. dict_set d (fst c) []) [] TOPICS = empty_digest"
  unfolding TOPICS_def empty_digest_def foldl.simps fst_conv
  by (simp add: ascii_def)

lemma ascii_eq: "ascii s = ascii t \<longleftrightarrow> s = t"
proof -
  have "inj (of_char :: char \<Rightarrow> nat)"
    by (rule injI) (metis char_of_char)
  then show ?thesis by (simp add: ascii_def inj_map_eq_map)
qed

lemma ex_pre: "\<forall>c \<in> set (take 3 TOPICS). \<forall>q \<in> set (snd c). fst (search_news ex_api q) = Inr []"
  by (simp add: TOPICS_def ex_api_down ascii_eq)

lemma ex_post: "\<forall>c \<in> set (drop 4 TOPICS). \<forall>q \<in> set (snd c). fst (search_news ex_api q) = Inr []"
  by (simp add: TOPICS_def ex_api_down ascii_eq)

lemma down_fetch_all: "fst (fetch_all_news (\<lambda>q. Raises RequestException)) = Inr empty_digest"
proof -
  have "fst (fetch_categories (\<lambda>q. Raises RequestException) (TOPICS @ []) [])
      = fst (fetch_categories (\<lambda>q. Raises RequestException) []
               (foldl (\<lambda>d c. dict_set d (fst c) []) [] TOPICS))"
    by (rule fetch_categories_down) (simp add: search_news_def search_news_try_def)
  then show ?thesis by (simp add: fetch_all_news_def TOPICS_folded)
qed

lemma ex_folded:
  "foldl (\<lambda>d c. dict_set d (fst c) [])
     (dict_set (foldl (\<lambda>d c. dict_set d (fst c) []) [] (take 3 TOPICS))
        (ascii ''technology'')
        [ex_summary ''B'' ''u1'', ex_summary ''D'' ''u2'', ex_summary ''F'' ''u3'',
         ex_summary ''J'' ''u5''])
     (drop 4 TOPICS) = ex_digest"
  unfolding TOPICS_def ex_digest_def
  by (simp add: ascii_eq)

lemma ex_fetch_all: "fst (fetch_all_news ex_api) = Inr ex_digest"
proof -
  let ?tq = "[ascii ''AI technology India'', ascii ''ISRO mission'', ascii ''cybersecurity India'',
       ascii ''tech news India'']"
  have split: "TOPICS = take 3 TOPICS @ (ascii ''technology'', ?tq) # (drop 4 TOPICS @ [])"
    by (simp add: TOPICS_def)
  have tech: "fst (fetch_queries ex_api ?tq []) = Inr ex_fetched"
    unfolding ex_fetch_technology by simp
  have "fst (fetch_categories ex_api TOPICS [])
      = fst (fetch_categories ex_api (take 3 TOPICS @ (ascii ''technology'', ?tq) # (drop 4 TOPICS @ [])) [])"
    using split by simp
  also have "\<dots> = fst (fetch_categories ex_api ((ascii ''technology'', ?tq) # (drop 4 TOPICS @ []))
               (foldl (\<lambda>d c. dict_set d (fst c) []) [] (take 3 TOPICS)))"
    by (rule fetch_categories_down [OF ex_pre])
  also have "\<dots> = fst (fetch_categories ex_api (drop 4 TOPICS @ [])
               (dict_set (foldl (\<lambda>d c. dict_set d (fst c) []) [] (take 3 TOPICS))
                  (ascii ''technology'')
                  [ex_summary ''B'' ''u1'', ex_summary ''D'' ''u2'', ex_summary ''F'' ''u3'',
                   ex_summary ''J'' ''u5'']))"
    by (rule fetch_categories_step [OF tech ex_summaries])
  also have "\<dots> = fst (fetch_categories ex_api []
               (foldl (\<lambda>d c. dict_set d (fst c) [])
                 (dict_set (foldl (\<lambda>d c. dict_set d (fst c) []) [] (take 3 TOPICS))
                    (ascii ''technology'')
                    [ex_summary ''B'' ''u1'', ex_summary ''D'' ''u2'', ex_summary ''F'' ''u3'',
                     ex_summary ''J'' ''u5''])
                 (drop 4 TOPICS)))"
    by (rule fetch_categories_down [OF ex_post])
  also have "\<dots> = Inr ex_digest"
    unfolding ex_folded by simp
  finally show ?thesis by (simp add: fetch_all_news_def)
qed

lemma ex_fetch_pair: "fetch_all_news ex_api = (Inr ex_digest, snd (fetch_all_news ex_api))"
  using ex_fetch_all by (metis prod.collapse)

lemma down_fetch_pair:
  "fetch_all_news (api down_world) = (Inr empty_digest, snd (fetch_all_news (api down_world)))"
  using down_fetch_all by (metis prod.collapse down_world_def world.select_convs(1))

lemma ex_technology_entry:
  "(ascii ''technology'',
    [ex_summary ''B'' ''u1'', ex_summary ''D'' ''u2'', ex_summary ''F'' ''u3'',
     ex_summary ''J'' ''u5'']) \<in> set ex_digest"
  by (simp add: ex_digest_def)

theorem dedup_first_occurrences_witness:
  "map (\<lambda>i. ex_fetched ! i)
     (filter (\<lambda>i. truthy (get_default (a_url (ex_fetched ! i)) [])
                \<and> (\<forall>j<i. get_default (a_url (ex_fetched ! j)) []
                          \<noteq> get_default (a_url (ex_fetched ! i)) []))
        [0..<length ex_fetched])
   = [ex_article ''B'' (Val (ascii ''u1'')), ex_article ''D'' (Val (ascii ''u2'')),
      ex_article ''F'' (Val (ascii ''u3'')), ex_article ''J'' (Val (ascii ''u5'')),
      ex_article ''K'' (Val (ascii ''u6''))]"
  using dedup_first_occurrences [of ex_fetched] ex_dedup by simp

theorem digest_capped_witness:
  "fetch_all_news ex_api = (Inr ex_digest, snd (fetch_all_news ex_api))
   \<and> (ascii ''technology'',
        [ex_summary ''B'' ''u1'', ex_summary ''D'' ''u2'', ex_summary ''F'' ''u3'',
         ex_summary ''J'' ''u5'']) \<in> set ex_digest
   \<and> length [ex_summary ''B'' ''u1'', ex_summary ''D'' ''u2'', ex_summary ''F'' ''u3'',
               ex_summary ''J'' ''u5''] \<le> 4"
  using digest_capped [OF ex_fetch_pair ex_technology_entry] ex_fetch_pair ex_technology_entry
  by simp

theorem digest_urls_nonempty_witness:
  "ex_article ''A'' Missing \<in> set ex_fetched
   \<and> a_url (ex_article ''A'' Missing) \<in> {Missing, Null, Val []}
   \<and> ex_article ''A'' Missing \<notin> set (dedup_by_url ex_fetched)
   \<and> fetch_all_news ex_api = (Inr ex_digest, snd (fetch_all_news ex_api))
   \<and> (ascii ''technology'',
        [ex_summary ''B'' ''u1'', ex_summary ''D'' ''u2'', ex_summary ''F'' ''u3'',
         ex_summary ''J'' ''u5'']) \<in> set ex_digest
   \<and> ex_summary ''B'' ''u1'' \<in> set [ex_summary ''B'' ''u1'', ex_summary ''D'' ''u2'',
         ex_summary ''F'' ''u3'', ex_summary ''J'' ''u5'']
   \<and> (\<exists>url. s_url (ex_summary ''B'' ''u1'') = Some url \<and> url \<noteq> [])"
proof -
  have h1: "ex_article ''A'' Missing \<in> set ex_fetched" by (simp add: ex_fetched_def)
  have h2: "a_url (ex_article ''A'' Missing) \<in> {Missing, Null, Val []}"
    by (simp add: ex_article_def)
  have h3: "ex_summary ''B'' ''u1'' \<in> set [ex_summary ''B'' ''u1'', ex_summary ''D'' ''u2'',
         ex_summary ''F'' ''u3'', ex_summary ''J'' ''u5'']" by simp
  note t = digest_urls_nonempty [of "ex_article ''A'' Missing" ex_fetched ex_api ex_digest
      "snd (fetch_all_news ex_api)" "ascii ''technology''"
      "[ex_summary ''B'' ''u1'', ex_summary ''D'' ''u2'', ex_summary ''F'' ''u3'',
        ex_summary ''J'' ''u5'']" "ex_summary ''B'' ''u1''"]
  from t h1 h2 have a: "ex_article ''A'' Missing \<notin> set (dedup_by_url ex_fetched)" by blast
  from t ex_fetch_pair ex_technology_entry h3
  have b: "\<exists>url. s_url (ex_summary ''B'' ''u1'') = Some url \<and> url \<noteq> []" by blast
  from h1 h2 h3 a b ex_fetch_pair ex_technology_entry show ?thesis by blast
qed

theorem run_without_articles_witness:
  "fetch_all_news (api down_world) = (Inr empty_digest, snd (fetch_all_news (api down_world)))
   \<and> sum_list (map (\<lambda>(k, a). length a) empty_digest) = 0
   \<and> fst (run down_world (ascii ''November 04, 2026'')) = Inr False
   \<and> (\<forall>subject text html.
         SmtpSend subject text html \<notin> set (snd (run down_world (ascii ''November 04, 2026''))))"
proof -
  have h: "sum_list (map (\<lambda>(k, a). length a) empty_digest) = 0"
    by (simp add: empty_digest_def)
  from run_without_articles [OF down_fetch_pair h, of "ascii ''November 04, 2026''"]
    down_fetch_pair h
  show ?thesis by blast
qed

theorem search_news_swallows_witness:
  "ex_api (ascii ''India economy'') = Raises RequestException
   \<and> search_news_try (ex_api (ascii ''India economy'')) = Inl RequestException
   \<and> search_news ex_api (ascii ''India economy'')
       = (Inr [], [HttpGet (ascii ''India economy''), Log ERROR])
   \<and> ex_api (ascii ''UPSC exam'') = Returns (Object (Val (ascii ''error'')) Missing)
   \<and> get (Val (ascii ''error'')) \<noteq> Some (ascii ''ok'')
   \<and> fst (search_news ex_api (ascii ''UPSC exam'')) = Inr []"
proof -
  have h1: "ex_api (ascii ''India economy'') = Raises RequestException"
    by (simp add: ex_api_def ascii_eq)
  have h2: "search_news_try (ex_api (ascii ''India economy'')) = Inl RequestException"
    by (simp add: h1 search_news_try_def)
  have h3: "ex_api (ascii ''UPSC exam'') = Returns (Object (Val (ascii ''error'')) Missing)"
    by (simp add: ex_api_def ascii_eq)
  have h4: "get (Val (ascii ''error'')) \<noteq> Some (ascii ''ok'')"
    by (simp add: get_def ascii_eq)
  from search_news_swallows [of ex_api "ascii ''India economy''" RequestException] h1
  have a: "search_news ex_api (ascii ''India economy'')
       = (Inr [], [HttpGet (ascii ''India economy''), Log ERROR])" by blast
  from search_news_swallows [of ex_api "ascii ''UPSC exam''" _ "Val (ascii ''error'')" Missing] h3 h4
  have b: "fst (search_news ex_api (ascii ''UPSC exam'')) = Inr []" by blast
  from h1 h2 h3 h4 a b show ?thesis by blast
qed

theorem search_news_filters_witness:
  "ex_api (ascii ''ISRO mission'') =
     Returns (Object (Val (ascii ''ok''))
       (Val [ex_article ''A'' Missing, ex_article ''B'' (Val (ascii ''u1'')),
             ex_article ''[Removed]'' (Val (ascii ''u9'')), ex_article ''C'' (Val []),
             ex_article ''D'' (Val (ascii ''u2'')), ex_article ''E'' (Val (ascii ''u1'')),
             ex_article ''F'' (Val (ascii ''u3'')), ex_article ''G'' Null,
             ex_article ''H'' (Val (ascii ''u4''))]))
   \<and> fst (search_news ex_api (ascii ''ISRO mission'')) =
       Inr [ex_article ''A'' Missing, ex_article ''B'' (Val (ascii ''u1'')),
            ex_article ''C'' (Val []), ex_article ''D'' (Val (ascii ''u2'')),
            ex_article ''E'' (Val (ascii ''u1'')), ex_article ''F'' (Val (ascii ''u3''))]"
proof -
  have h: "ex_api (ascii ''ISRO mission'') =
     Returns (Object (Val (ascii ''ok''))
       (Val [ex_article ''A'' Missing, ex_article ''B'' (Val (ascii ''u1'')),
             ex_article ''[Removed]'' (Val (ascii ''u9'')), ex_article ''C'' (Val []),
             ex_article ''D'' (Val (ascii ''u2'')), ex_article ''E'' (Val (ascii ''u1'')),
             ex_article ''F'' (Val (ascii ''u3'')), ex_article ''G'' Null,
             ex_article ''H'' (Val (ascii ''u4''))]))"
    by (simp add: ex_api_def)
  show ?thesis
    using search_news_filters [of ex_api "ascii ''ISRO mission''", OF h] h
    by (simp add: ex_article_def ascii_eq) (simp add: ascii_def)
qed

lemma ex_shown:
  "filter (\<lambda>(k, e, n, d). dict_get ex_digest k \<noteq> []) cat_info
     = [(ascii ''technology'', [128202], ascii ''TECHNOLOGY'', ascii ''Tech news, AI'')]"
  by (simp add: cat_info_def ex_digest_def dict_get_def ascii_eq)

lemma ex_technology_get:
  "dict_get ex_digest (ascii ''technology'')
     = [ex_summary ''B'' ''u1'', ex_summary ''D'' ''u2'', ex_summary ''F'' ''u3'',
        ex_summary ''J'' ''u5'']"
  by (simp add: ex_digest_def dict_get_def ascii_eq)

lemma ex_total:
  "sum_list (map (\<lambda>(k, e, n, d). length (dict_get ex_digest k)) cat_info) = 4"
  by (simp add: cat_info_def ex_digest_def dict_get_def ascii_eq)

lemma ex_nonempty_count: "length (filter (\<lambda>(k, v). v \<noteq> []) ex_digest) = 1"
  by (simp add: ex_digest_def)

lemma ex_digest_urls: "\<forall>(k, v) \<in> set ex_digest. \<forall>s \<in> set v. s_url s \<noteq> None"
  by (simp add: ex_digest_def ex_summary_def)

theorem create_email_sections_witness:
  "list_all (\<lambda>(k, v). list_all (\<lambda>s. s_url s \<noteq> None) v) ex_digest
   \<and> (\<exists>text html sec.
         create_email ex_digest (ascii ''November 04, 2026'') = Inr (text, html)
       \<and> html = html_head (ascii ''November 04, 2026'')
                @ html_section [128202] (ascii ''TECHNOLOGY'')
                    [ex_summary ''B'' ''u1'', ex_summary ''D'' ''u2'', ex_summary ''F'' ''u3'',
                     ex_summary ''J'' ''u5'']
                @ html_stats 4 1
       \<and> text_section [128202] (ascii ''TECHNOLOGY'')
                    [ex_summary ''B'' ''u1'', ex_summary ''D'' ''u2'', ex_summary ''F'' ''u3'',
                     ex_summary ''J'' ''u5''] = Inr sec
       \<and> text = text_head (ascii ''November 04, 2026'') @ sec @ text_foot 4)"
proof -
  let ?d = "ascii ''November 04, 2026''"
  from create_email_sections [of ex_digest ?d] ex_digest_urls
  obtain body page where r: "create_email ex_digest ?d = Inr (body, page)" by blast
  from create_email_sections [of ex_digest ?d body page] r
  have h: "page = html_head ?d
               @ concat (map (\<lambda>(k, e, n, d). html_section e n (dict_get ex_digest k))
                           (filter (\<lambda>(k, e, n, d). dict_get ex_digest k \<noteq> []) cat_info))
               @ html_stats (sum_list (map (\<lambda>(k, e, n, d). length (dict_get ex_digest k)) cat_info))
                   (length (filter (\<lambda>(k, v). v \<noteq> []) ex_digest))"
    and t: "\<exists>secs. map (\<lambda>(k, e, n, d). text_section e n (dict_get ex_digest k))
                      (filter (\<lambda>(k, e, n, d). dict_get ex_digest k \<noteq> []) cat_info) = map Inr secs
                  \<and> body = text_head ?d @ concat secs
                           @ text_foot (sum_list (map (\<lambda>(k, e, n, d). length (dict_get ex_digest k)) cat_info))"
    by blast+
  from h have h': "page = html_head ?d
                @ html_section [128202] (ascii ''TECHNOLOGY'')
                    [ex_summary ''B'' ''u1'', ex_summary ''D'' ''u2'', ex_summary ''F'' ''u3'',
                     ex_summary ''J'' ''u5'']
                @ html_stats 4 1"
    unfolding ex_shown ex_total ex_nonempty_count by (simp add: ex_technology_get)
  from t obtain secs where
    m0: "map (\<lambda>(k, e, n, d). text_section e n (dict_get ex_digest k))
           (filter (\<lambda>(k, e, n, d). dict_get ex_digest k \<noteq> []) cat_info) = map Inr secs"
    and tx0: "body = text_head ?d @ concat secs
                @ text_foot (sum_list (map (\<lambda>(k, e, n, d). length (dict_get ex_digest k)) cat_info))"
    by blast
  have m: "[text_section [128202] (ascii ''TECHNOLOGY'') (dict_get ex_digest (ascii ''technology''))]
          = map Inr secs"
    using m0 unfolding ex_shown by simp
  have tx: "body = text_head ?d @ concat secs @ text_foot 4"
    using tx0 unfolding ex_total .
  from m obtain sec where sec: "secs = [sec]"
    and s: "text_section [128202] (ascii ''TECHNOLOGY'') (dict_get ex_digest (ascii ''technology'')) = Inr sec"
    by (cases secs) auto
  have "list_all (\<lambda>(k, v). list_all (\<lambda>s. s_url s \<noteq> None) v) ex_digest"
    using ex_digest_urls by (auto simp: list_all_iff)
  with r h' s tx sec show ?thesis
    unfolding ex_technology_get by auto
qed

theorem category_keys_agree_witness:
  "fetch_all_news ex_api = (Inr ex_digest, snd (fetch_all_news ex_api))
   \<and> (ascii ''technology'',
        [ex_summary ''B'' ''u1'', ex_summary ''D'' ''u2'', ex_summary ''F'' ''u3'',
         ex_summary ''J'' ''u5'']) \<in> set ex_digest
   \<and> [ex_summary ''B'' ''u1'', ex_summary ''D'' ''u2'', ex_summary ''F'' ''u3'',
         ex_summary ''J'' ''u5''] \<noteq> []
   \<and> ascii ''technology''
        \<in> fst ` set (filter (\<lambda>(k, e, n, d). dict_get ex_digest k \<noteq> []) cat_info)"
proof -
  have ne: "[ex_summary ''B'' ''u1'', ex_summary ''D'' ''u2'', ex_summary ''F'' ''u3'',
         ex_summary ''J'' ''u5''] \<noteq> []" by simp
  from category_keys_agree [of ex_api ex_digest "snd (fetch_all_news ex_api)"
      "ascii ''technology''" "[ex_summary ''B'' ''u1'', ex_summary ''D'' ''u2'',
         ex_summary ''F'' ''u3'', ex_summary ''J'' ''u5'']"]
    ex_fetch_pair ex_technology_entry ne
  show ?thesis by blast
qed

section \<open>Texts that fit\<close>

lemma join_cut_both:
  assumes "\<forall>w \<in> set ws. sep \<notin> set w"
    and "py_join [sep] ws = p @ sep # q"
  shows "\<exists>k. 0 < k \<and> k < length ws \<and> p = py_join [sep] (take k ws)
             \<and> q = py_join [sep] (drop k ws)"
  using assms
proof (induction ws arbitrary: p rule: induct_list012)
  case 1
  then show ?case by simp
next
  case (2 w)
  then show ?case by auto
next
  case (3 w v ws)
  from "3.prems" have eq: "w @ sep # py_join [sep] (v # ws) = p @ sep # q"
    and nw: "sep \<notin> set w" by simp_all
  have first: ?case if "p = w"
  proof -
    from eq that have "q = py_join [sep] (v # ws)" by simp
    with that show ?thesis by (intro exI [of _ 1]) simp
  qed
  from eq obtain us where
    "(w = p @ us \<and> us @ sep # py_join [sep] (v # ws) = sep # q)
     \<or> (w @ us = p \<and> sep # py_join [sep] (v # ws) = us @ sep # q)"
    by (auto simp: append_eq_append_conv2)
  then show ?case
  proof
    assume a: "w = p @ us \<and> us @ sep # py_join [sep] (v # ws) = sep # q"
    have "us = []"
    proof (cases us)
      case Nil then show ?thesis .
    next
      case (Cons u us')
      with a have "u = sep" by simp
      with Cons a nw show ?thesis by simp
    qed
    with a first show ?thesis by simp
  next
    assume b: "w @ us = p \<and> sep # py_join [sep] (v # ws) = us @ sep # q"
    show ?thesis
    proof (cases us)
      case Nil
      with b first show ?thesis by simp
    next
      case (Cons u us')
      with b have u: "u = sep" and rest: "py_join [sep] (v # ws) = us' @ sep # q"
        by auto
      from "3.prems" have "\<forall>x \<in> set (v # ws). sep \<notin> set x" by simp
      from "3.IH"(2) [OF this rest] obtain k where
        k: "0 < k" "k < length (v # ws)" "us' = py_join [sep] (take k (v # ws))"
          "q = py_join [sep] (drop k (v # ws))"
        by blast
      from k(1) obtain k' where k': "k = Suc k'" by (cases k) auto
      have "p = w @ sep # us'" using b Cons u by simp
      also have "\<dots> = py_join [sep] (take (Suc k) (w # v # ws))"
        using k(3) k' by simp
      finally show ?thesis using k(2,4) by (intro exI [of _ "Suc k"]) simp
    qed
  qed
qed

lemma join_ends:
  assumes "ws \<noteq> []" and "\<forall>w \<in> set ws. w \<noteq> [] \<and> (\<forall>c \<in> set w. \<not> isspace c)"
  shows "py_join [32] ws \<noteq> [] \<and> \<not> isspace (hd (py_join [32] ws))
       \<and> \<not> isspace (last (py_join [32] ws))"
  using assms
proof (induction ws rule: induct_list012)
  case 1
  then show ?case by simp
next
  case (2 w)
  then show ?case by (cases w) auto
next
  case (3 w v ws)
  then have "py_join [32] (v # ws) \<noteq> [] \<and> \<not> isspace (last (py_join [32] (v # ws)))"
    by simp
  moreover have "w \<noteq> [] \<and> \<not> isspace (hd w)" using "3.prems" by (cases w) auto
  ultimately show ?case by simp
qed

lemma join_space_chars:
  assumes "\<forall>w \<in> set ws. \<forall>c \<in> set w. \<not> isspace c"
    and "c \<in> set (py_join [32] ws)" and "isspace c"
  shows "c = 32"
  using assms by (induction ws rule: induct_list012) auto

lemma join_filter_words:
  assumes "\<forall>w \<in> set ws. \<forall>c \<in> set w. \<not> isspace c"
  shows "filter (\<lambda>c. \<not> isspace c) (py_join [32] ws) = concat ws"
  using assms by (induction ws rule: induct_list012) (auto simp: isspace_space)

lemma py_split_concat: "concat (py_split s) = filter (\<lambda>c. \<not> isspace c) s"
proof (induction s rule: py_split.induct)
  case (1 s)
  have s: "s = takeWhile isspace s @ dropWhile isspace s" by simp
  have lead: "filter (\<lambda>c. \<not> isspace c) (takeWhile isspace s) = []"
    by (auto simp: filter_empty_conv dest: set_takeWhileD)
  show ?case
  proof (cases "dropWhile isspace s")
    case Nil
    have "filter (\<lambda>c. \<not> isspace c) s = []"
      by (subst s) (simp only: filter_append lead Nil, simp)
    moreover have "py_split s = []"
      by (subst py_split.simps) (simp only: Nil list.case)
    ultimately show ?thesis by simp
  next
    case (Cons c cs)
    let ?w = "takeWhile (\<lambda>x. \<not> isspace x) (c # cs)"
    let ?r = "dropWhile (\<lambda>x. \<not> isspace x) (c # cs)"
    have w: "filter (\<lambda>c. \<not> isspace c) ?w = ?w"
      by (auto simp: filter_id_conv dest: set_takeWhileD)
    have "filter (\<lambda>c. \<not> isspace c) s = filter (\<lambda>c. \<not> isspace c) (c # cs)"
      by (subst s) (simp only: filter_append lead Cons, simp)
    also have "c # cs = ?w @ ?r" by simp
    also have "filter (\<lambda>c. \<not> isspace c) (?w @ ?r) = ?w @ filter (\<lambda>c. \<not> isspace c) ?r"
      by (simp only: filter_append w)
    also have "\<dots> = ?w @ concat (py_split ?r)"
      using "1.IH" [OF Cons] by simp
    also have "\<dots> = concat (py_split s)"
      by (subst (2) py_split.simps) (simp only: Cons list.case concat.simps)
    finally show ?thesis by simp
  qed
qed

lemma collapse_ws_padded: "collapse_ws (ascii '' a b '') = ascii ''a b''"
  by (simp add: collapse_ws_def py_split.simps ascii_def isspace_def)

lemma collapse_ws_runs: "collapse_ws (ascii '' a  b '') = ascii ''a b''"
  by (simp add: collapse_ws_def py_split.simps ascii_def isspace_def)


text \<open>
  Claim C2, as stated, fails at two inputs whose collapsed form is shorter than 150. The
  empty text is answered with the default text, not with the empty collapsed form. And a
  text with a space in front and behind, whose inner whitespace is single spaces already,
  comes back without them: more changes than the inner runs.
\<close>

theorem clean_text_counterexample:
  "int (length (collapse_ws [])) < 150
   \<and> clean_text (Some []) 150 = ascii ''No details available''
   \<and> ascii ''No details available'' \<noteq> collapse_ws []
   \<and> int (length (collapse_ws (ascii '' a b ''))) < 150
   \<and> clean_text (Some (ascii '' a b '')) 150 = ascii ''a b''
   \<and> ascii ''a b'' \<noteq> ascii '' a b ''"
proof -
  have c: "collapse_ws [] = []" by (simp add: collapse_ws_def py_split_empty)
  have "clean_text (Some (ascii '' a b '')) 150 = ascii ''a b''"
    by (simp add: clean_text_def collapse_ws_padded slice_to_def) (simp add: ascii_def)
  moreover have "int (length (collapse_ws (ascii '' a b ''))) < 150"
    by (simp add: collapse_ws_padded) (simp add: ascii_def)
  moreover have "clean_text (Some []) 150 = ascii ''No details available''"
    by (simp add: clean_text_def)
  moreover have "ascii ''No details available'' \<noteq> collapse_ws []"
    by (simp add: c ascii_def)
  moreover have "ascii ''a b'' \<noteq> ascii '' a b ''" by (simp add: ascii_eq)
  ultimately show ?thesis by (simp add: c)
qed


text \<open>
  Claim C2, amended. The empty text is answered with the default text. For a text that is
  not empty and whose collapsed form is shorter than \<open>max_len\<close>, the result of
  \<open>clean_text\<close> is the words of the text joined by single spaces: it splits into the same
  words as the text, it has the characters of the text that are not whitespace, in their
  order, and no others but separators, every whitespace character in it is a space, and
  every space in it stands between two characters that are not whitespace, so there is
  no whitespace in front or behind and no run of whitespace; nothing is appended.
\<close>

theorem clean_text_short_form:
  "clean_text (Some []) max_len = ascii ''No details available''
   \<and> (t \<noteq> [] \<and> int (length (collapse_ws t)) < max_len \<longrightarrow>
        clean_text (Some t) max_len = py_join (ascii '' '') (py_split t)
      \<and> py_split (clean_text (Some t) max_len) = py_split t
      \<and> filter (\<lambda>c. \<not> isspace c) (clean_text (Some t) max_len) = filter (\<lambda>c. \<not> isspace c) t
      \<and> (\<forall>c \<in> set (clean_text (Some t) max_len). isspace c \<longrightarrow> c = 32)
      \<and> (\<forall>u v. clean_text (Some t) max_len = u @ 32 # v \<longrightarrow>
            u \<noteq> [] \<and> v \<noteq> [] \<and> \<not> isspace (last u) \<and> \<not> isspace (hd v)))"
proof (intro conjI impI)
  show "clean_text (Some []) max_len = ascii ''No details available''"
    by (simp add: clean_text_def)
next
  assume a: "t \<noteq> [] \<and> int (length (collapse_ws t)) < max_len"
  let ?ws = "py_split t"
  let ?r = "clean_text (Some t) max_len"
  have good: "\<forall>w \<in> set ?ws. w \<noteq> [] \<and> (\<forall>c \<in> set w. \<not> isspace c)"
    using py_split_words by blast
  from a have len: "int (length (collapse_ws t)) < max_len" by simp
  then have "slice_to max_len (collapse_ws t) = collapse_ws t"
    by (simp add: slice_to_def)
  then have r: "?r = py_join [32] ?ws"
    using a by (simp add: clean_text_def collapse_ws_def ascii_space)
  show "?r = py_join (ascii '' '') ?ws" by (simp add: r ascii_space)
  show "py_split ?r = ?ws" using py_split_join [OF good] by (simp add: r)
  show "filter (\<lambda>c. \<not> isspace c) ?r = filter (\<lambda>c. \<not> isspace c) t"
    using join_filter_words [of ?ws] good by (simp add: r py_split_concat)
  show "\<forall>c \<in> set ?r. isspace c \<longrightarrow> c = 32"
    using join_space_chars [of ?ws] good unfolding r by blast
  show "\<forall>u v. ?r = u @ 32 # v \<longrightarrow>
            u \<noteq> [] \<and> v \<noteq> [] \<and> \<not> isspace (last u) \<and> \<not> isspace (hd v)"
  proof (intro allI impI)
    fix u v
    assume "?r = u @ 32 # v"
    then have e: "py_join [32] ?ws = u @ 32 # v" by (simp add: r)
    have "\<forall>w \<in> set ?ws. 32 \<notin> set w" using good isspace_space by blast
    from join_cut_both [OF this e] obtain k where
      k: "0 < k" "k < length ?ws" "u = py_join [32] (take k ?ws)"
        "v = py_join [32] (drop k ?ws)" by blast
    have tk: "take k ?ws \<noteq> []" using k(1,2) by auto
    have dk: "drop k ?ws \<noteq> []" using k(2) by simp
    have gt: "\<forall>w \<in> set (take k ?ws). w \<noteq> [] \<and> (\<forall>c \<in> set w. \<not> isspace c)"
      using good by (meson in_set_takeD)
    have gd: "\<forall>w \<in> set (drop k ?ws). w \<noteq> [] \<and> (\<forall>c \<in> set w. \<not> isspace c)"
      using good by (meson in_set_dropD)
    from join_ends [OF tk gt] join_ends [OF dk gd] k(3,4)
    show "u \<noteq> [] \<and> v \<noteq> [] \<and> \<not> isspace (last u) \<and> \<not> isspace (hd v)" by simp
  qed
qed

theorem clean_text_short_form_witness:
  "ascii '' a  b '' \<noteq> [] \<and> int (length (collapse_ws (ascii '' a  b ''))) < 150
   \<and> clean_text (Some (ascii '' a  b '')) 150 = ascii ''a b''
   \<and> py_split (ascii ''a b'') = py_split (ascii '' a  b '')
   \<and> clean_text (Some []) 150 = ascii ''No details available''"
proof -
  have h1: "ascii '' a  b '' \<noteq> []" by (simp add: ascii_def)
  have h2: "int (length (collapse_ws (ascii '' a  b ''))) < 150"
    by (simp add: collapse_ws_runs) (simp add: ascii_def)
  have j: "py_join (ascii '' '') (py_split (ascii '' a  b '')) = ascii ''a b''"
    using collapse_ws_runs by (simp add: collapse_ws_def)
  from clean_text_short_form [of 150 "ascii '' a  b ''"] h1 h2
  have "clean_text (Some (ascii '' a  b '')) 150 = py_join (ascii '' '') (py_split (ascii '' a  b ''))"
    and "py_split (clean_text (Some (ascii '' a  b '')) 150) = py_split (ascii '' a  b '')"
    and "clean_text (Some []) 150 = ascii ''No details available''"
    by blast+
  with h1 h2 j show ?thesis by simp
qed

end
